theory Spec2Isabelle
  imports Main "HOL-Library.Product_Lexorder" "HOL-Library.Sublist" "HOL-Library.AList"
begin

section \<open>Paths and strings\<close>

text \<open>
  A \<^verbatim>\<open>pathlib.Path\<close> is modelled as the list of the components of an absolute,
  normalised path: \<^verbatim>\<open>/data/MobileBackup/a.jpg\<close> is \<open>[''data'', ''MobileBackup'', ''a.jpg'']\<close>
  and \<open>[]\<close> is the root. \<^verbatim>\<open>d / name\<close> appends a component, \<^verbatim>\<open>p.name\<close> is the last
  component, \<^verbatim>\<open>str(p)\<close> joins the components with slashes. Equality of paths is
  equality of the lists, as \<^verbatim>\<open>Path.__eq__\<close> is on a POSIX system.
\<close>

type_synonym path = "string list"

definition str_of :: "path \<Rightarrow> string" where
  "str_of p = (if p = [] then ''/'' else concat (map (\<lambda>c. CHR ''/'' # c) p))"

text \<open>\<^verbatim>\<open>a.startswith(b)\<close> on strings.\<close>

definition startswith :: "string \<Rightarrow> string \<Rightarrow> bool" where
  "startswith a b = prefix b a"

definition name_of :: "path \<Rightarrow> string" where
  "name_of p = (if p = [] then [] else last p)"

text \<open>
  \<^verbatim>\<open>p.suffix\<close> and \<^verbatim>\<open>p.stem\<close> of pathlib: with \<^verbatim>\<open>i = name.rfind('.')\<close>, the name is split at
  \<open>i\<close> when \<^verbatim>\<open>0 < i < len(name) - 1\<close>, and otherwise the suffix is empty and the stem is the
  whole name. \<open>dot_index\<close> is \<open>i\<close> when the name holds a dot.
\<close>

definition dot_index :: "string \<Rightarrow> nat" where
  "dot_index n = length n - length (takeWhile (\<lambda>c. c \<noteq> CHR ''.'') (rev n)) - 1"

definition splits_at_dot :: "string \<Rightarrow> bool" where
  "splits_at_dot n \<longleftrightarrow> CHR ''.'' \<in> set n \<and> 0 < dot_index n \<and> dot_index n < length n - 1"

definition suffix_of :: "path \<Rightarrow> string" where
  "suffix_of p = (let n = name_of p in if splits_at_dot n then drop (dot_index n) n else [])"

definition stem_of :: "path \<Rightarrow> string" where
  "stem_of p = (let n = name_of p in if splits_at_dot n then take (dot_index n) n else n)"

text \<open>\<^verbatim>\<open>str.lower()\<close> on the ASCII letters, and \<^verbatim>\<open>lstrip(".")\<close>.\<close>

definition lower_char :: "char \<Rightarrow> char" where
  "lower_char c =
     (let n = (of_char c :: nat) in if 65 \<le> n \<and> n \<le> 90 then char_of (n + 32) else c)"

definition lower :: "string \<Rightarrow> string" where
  "lower s = map lower_char s"

definition lstrip_dot :: "string \<Rightarrow> string" where
  "lstrip_dot s = dropWhile (\<lambda>c. c = CHR ''.'') s"

text \<open>\<^verbatim>\<open>str(n)\<close> for a non-negative integer, used in reason codes and timestamp suffixes.\<close>

function digits :: "int \<Rightarrow> string" where
  "digits n = (if n < 10 then [char_of (48 + n)] else digits (n div 10) @ [char_of (48 + n mod 10)])"
  by pat_completeness auto
termination
  by (relation "measure nat") auto

declare digits.simps [simp del]

section \<open>Configuration and external facilities\<close>

text \<open>
  The module-level constants read from the environment. \<open>EXTS\<close> only steers the directory
  scan, which is an input here.
\<close>

record config =
  MASTER :: path
  SOURCE :: path
  QUAR :: path
  DRY_RUN :: bool
  PHASH_THRESHOLD :: int
  QUALITY_ORDER :: "string list"

text \<open>
  What planning observes of the outside world, one field per external call of the source:
  \<^item> \<open>image_size\<close>: width and height from \<^verbatim>\<open>Image.open\<close>, \<open>None\<close> when it raises;
  \<^item> \<open>has_exif_datetime\<close>: the outcome of the \<^verbatim>\<open>exiftool\<close> probe of that name;
  \<^item> \<open>exif_yyyy_mm\<close>: the capture bucket \<^verbatim>\<open>YYYY/MM\<close> as relative path components;
  \<^item> \<open>st_size\<close>: \<^verbatim>\<open>p.stat().st_size\<close>;
  \<^item> \<open>phash\<close>: the perceptual hash as its bits, \<open>None\<close> when the image cannot be read;
  \<^item> \<open>path_exists\<close>: \<^verbatim>\<open>Path.exists\<close> at planning time;
  \<^item> \<open>read_1k\<close>: the first 1024 bytes of a file, \<open>None\<close> when it cannot be opened;
  \<^item> \<open>getsize\<close>: \<^verbatim>\<open>os.path.getsize\<close>, \<open>None\<close> when it raises.

  Planning reads the file system and never moves a file, so these observations are fixed
  during one run. The source scores only paths that the scan or the grouping tool has just
  reported; a \<^verbatim>\<open>stat\<close> that raises on a vanished file is outside this model.
\<close>

record world =
  image_size :: "path \<Rightarrow> (int \<times> int) option"
  has_exif_datetime :: "path \<Rightarrow> bool"
  exif_yyyy_mm :: "path \<Rightarrow> path"
  st_size :: "path \<Rightarrow> int"
  phash :: "path \<Rightarrow> bool list option"
  path_exists :: "path \<Rightarrow> bool"
  read_1k :: "path \<Rightarrow> string option"
  getsize :: "path \<Rightarrow> int option"

section \<open>Quality scorer\<close>

definition file_type :: "string \<Rightarrow> string" where
  "file_type ext =
     (if ext \<in> {''dng'', ''cr2'', ''cr3'', ''nef'', ''arw''} then ''raw''
      else if ext \<in> {''heic'', ''heif''} then ''heic''
      else if ext \<in> {''jpg'', ''jpeg''} then ''jpeg''
      else if ext \<in> {''png''} then ''png''
      else ''other'')"

text \<open>\<^verbatim>\<open>xs.index(t)\<close> for a \<open>t\<close> that occurs in \<open>xs\<close>.\<close>

definition index_of :: "'a list \<Rightarrow> 'a \<Rightarrow> nat" where
  "index_of xs t = length (takeWhile (\<lambda>x. x \<noteq> t) xs)"

definition file_type_rank :: "config \<Rightarrow> path \<Rightarrow> int" where
  "file_type_rank cfg p =
     (let ext = lstrip_dot (lower (suffix_of p)); t = file_type ext
      in if t \<in> set (QUALITY_ORDER cfg) then int (index_of (QUALITY_ORDER cfg) t)
         else int (length (QUALITY_ORDER cfg)))"

definition resolution :: "world \<Rightarrow> path \<Rightarrow> int \<times> int \<times> int" where
  "resolution w p = (case image_size w p of Some (wd, ht) \<Rightarrow> (wd * ht, wd, ht) | None \<Rightarrow> (0, 0, 0))"

type_synonym score = "int \<times> int \<times> int \<times> int"

text \<open>Python compares tuples lexicographically; so does the order on products used here.\<close>

definition file_score :: "config \<Rightarrow> world \<Rightarrow> path \<Rightarrow> score" where
  "file_score cfg w p =
     (let t = file_type_rank cfg p;
          px = fst (resolution w p);
          ex = has_exif_datetime w p;
          sz = st_size w p
      in (t, - px, (if \<not> ex then 0 else - 1), - sz))"

definition better :: "config \<Rightarrow> world \<Rightarrow> path \<Rightarrow> path \<Rightarrow> path" where
  "better cfg w a b = (if file_score cfg w a < file_score cfg w b then a else b)"

section \<open>Exact-duplicate resolution\<close>

text \<open>A decision is the tuple \<^verbatim>\<open>(src, master, action, reason)\<close> of the source.\<close>

type_synonym decision = "path \<times> path option \<times> string \<times> string"

text \<open>The loop \<^verbatim>\<open>for c in candidates[1:]: best = better(best, c)\<close>.\<close>

definition best_of :: "config \<Rightarrow> world \<Rightarrow> path \<Rightarrow> path list \<Rightarrow> path" where
  "best_of cfg w c0 cs = foldl (better cfg w) c0 cs"

text \<open>The loop that keeps the master member with the largest score, the first one on ties.\<close>

definition worst_of :: "config \<Rightarrow> world \<Rightarrow> path \<Rightarrow> path list \<Rightarrow> path" where
  "worst_of cfg w m0 ms =
     foldl (\<lambda>worst_m m. if file_score cfg w m > file_score cfg w worst_m then m else worst_m) m0 ms"

text \<open>
  The body of \<^verbatim>\<open>for s in has_source\<close>, for a non-empty \<open>has_master = m0 # ms\<close>:
  \<open>candidates = has_master + [s]\<close>, so \<open>candidates[0]\<close> is \<open>m0\<close>.
\<close>

definition exact_decision :: "config \<Rightarrow> world \<Rightarrow> path \<Rightarrow> path list \<Rightarrow> path \<Rightarrow> decision" where
  "exact_decision cfg w m0 ms s =
     (let best = best_of cfg w m0 (ms @ [s])
      in if best = s
         then (s, Some (worst_of cfg w m0 ms), ''REPLACE_MASTER_WITH_SOURCE'', ''exact_dup_better_source'')
         else (s, Some best, ''KEEP_MASTER'', ''exact_dup_master_better''))"

definition has_master_of :: "config \<Rightarrow> path list \<Rightarrow> path list" where
  "has_master_of cfg g = filter (\<lambda>p. startswith (str_of p) (str_of (MASTER cfg))) g"

definition has_source_of :: "config \<Rightarrow> path list \<Rightarrow> path list" where
  "has_source_of cfg g = filter (\<lambda>p. startswith (str_of p) (str_of (SOURCE cfg))) g"

text \<open>One iteration of \<^verbatim>\<open>for i, g in enumerate(exact_groups)\<close>: the decisions it appends.\<close>

definition resolve_group :: "config \<Rightarrow> world \<Rightarrow> path list \<Rightarrow> decision list" where
  "resolve_group cfg w g =
     (case has_master_of cfg g of
        [] \<Rightarrow> []
      | m0 # ms \<Rightarrow>
          if has_source_of cfg g = [] then []
          else map (exact_decision cfg w m0 ms) (has_source_of cfg g))"

definition pairs_exact_of :: "config \<Rightarrow> world \<Rightarrow> path list list \<Rightarrow> decision list" where
  "pairs_exact_of cfg w exact_groups = concat (map (resolve_group cfg w) exact_groups)"

text \<open>\<open>exact_src_dups\<close> receives \<open>s\<close> exactly when a decision for \<open>s\<close> is appended.\<close>

definition exact_src_dups_of :: "config \<Rightarrow> world \<Rightarrow> path list list \<Rightarrow> path set" where
  "exact_src_dups_of cfg w exact_groups = set (map fst (pairs_exact_of cfg w exact_groups))"

section \<open>Near-duplicate resolution\<close>

text \<open>
  A perceptual hash is the list of its bits; \<^verbatim>\<open>a - b\<close> on two hashes counts the positions
  where they differ.
\<close>

definition hamming :: "bool list \<Rightarrow> bool list \<Rightarrow> int" where
  "hamming a b = int (length (filter (\<lambda>(x, y). x \<noteq> y) (zip a b)))"

text \<open>
  \<^verbatim>\<open>collect_by_phash\<close> fills a dict in list order. A Python dict keeps a key at the position
  of its first insertion and overwrites its value, which is what \<open>AList.update\<close> does on an
  association list.
\<close>

definition collect_by_phash :: "world \<Rightarrow> path list \<Rightarrow> (path \<times> bool list option) list" where
  "collect_by_phash w paths = foldl (\<lambda>out p. AList.update p (phash w p) out) [] paths"

text \<open>The body of \<^verbatim>\<open>for m, mh in master_hash.items()\<close> on the pair \<open>(best_m, best_d)\<close>.\<close>

definition scan_step ::
  "bool list \<Rightarrow> path option \<times> int \<Rightarrow> path \<times> bool list option \<Rightarrow> path option \<times> int" where
  "scan_step sh acc item =
     (case snd item of
        None \<Rightarrow> acc
      | Some mh \<Rightarrow> (let d = hamming sh mh in if d < snd acc then (Some (fst item), d) else acc))"

definition nearest :: "bool list \<Rightarrow> (path \<times> bool list option) list \<Rightarrow> path option \<times> int" where
  "nearest sh master_hash = foldl (scan_step sh) (None, 999) master_hash"

definition str_int :: "int \<Rightarrow> string" where
  "str_int i = (if i < 0 then CHR ''-'' # digits (- i) else digits i)"

text \<open>The body of \<^verbatim>\<open>for s, sh in source_hash.items()\<close>: the decision it appends.\<close>

definition sim_decision ::
  "config \<Rightarrow> world \<Rightarrow> (path \<times> bool list option) list \<Rightarrow> path \<times> bool list option \<Rightarrow> decision" where
  "sim_decision cfg w master_hash item =
     (let s = fst item in
      case snd item of
        None \<Rightarrow> (s, None, ''MOVE_SOURCE'', ''no_phash'')
      | Some sh \<Rightarrow>
          (let best_m = fst (nearest sh master_hash); best_d = snd (nearest sh master_hash) in
           case best_m of
             None \<Rightarrow> (s, None, ''MOVE_SOURCE'', ''unique_vs_master'')
           | Some bm \<Rightarrow>
               if best_d \<le> PHASH_THRESHOLD cfg
               then (if better cfg w s bm = s
                     then (s, Some bm, ''REPLACE_MASTER_WITH_SOURCE'',
                           ''phash_dup_d'' @ str_int best_d @ ''_better_source'')
                     else (s, Some bm, ''KEEP_MASTER'',
                           ''phash_dup_d'' @ str_int best_d @ ''_master_better''))
               else (s, None, ''MOVE_SOURCE'', ''unique_vs_master'')))"

definition remaining_of :: "config \<Rightarrow> world \<Rightarrow> path list list \<Rightarrow> path list \<Rightarrow> path list" where
  "remaining_of cfg w exact_groups SOURCE_FILES =
     filter (\<lambda>p. p \<notin> exact_src_dups_of cfg w exact_groups) SOURCE_FILES"

definition pairs_sim_of ::
  "config \<Rightarrow> world \<Rightarrow> path list \<Rightarrow> path list \<Rightarrow> path list list \<Rightarrow> decision list" where
  "pairs_sim_of cfg w MASTER_FILES SOURCE_FILES exact_groups =
     (let remaining = remaining_of cfg w exact_groups SOURCE_FILES;
          master_hash = collect_by_phash w MASTER_FILES;
          source_hash = collect_by_phash w remaining
      in map (sim_decision cfg w master_hash) source_hash)"

section \<open>Target paths and the plan\<close>

record row =
  action :: string
  src :: path
  master :: "path option"
  target_dir :: path
  target_path :: path
  quarantine_path :: "path option"
  reason :: string
  src_score :: score
  master_score :: "score option"

text \<open>
  A row is one line of the plan CSV. \<^verbatim>\<open>str\<close> of a path is never empty, so the empty
  \<^verbatim>\<open>master\<close> and \<^verbatim>\<open>quarantine_path\<close> cells stand for \<^verbatim>\<open>None\<close> both when written and when
  read back; the two cells are options here.
\<close>

definition filecmp :: "world \<Rightarrow> path \<Rightarrow> path \<Rightarrow> bool" where
  "filecmp w a b =
     (case (getsize w a, getsize w b) of
        (Some x, Some y) \<Rightarrow>
          if x \<noteq> y then False
          else (case (read_1k w a, read_1k w b) of (Some u, Some v) \<Rightarrow> u = v | _ \<Rightarrow> False)
      | _ \<Rightarrow> False)"

text \<open>\<open>ts\<close> is the reading \<^verbatim>\<open>int(time.time())\<close> that the call would take.\<close>

definition target_path_for :: "config \<Rightarrow> world \<Rightarrow> int \<Rightarrow> path \<Rightarrow> path \<times> path" where
  "target_path_for cfg w ts p =
     (let rel = exif_yyyy_mm w p;
          dest_dir = MASTER cfg @ rel;
          dest = dest_dir @ [name_of p]
      in if path_exists w dest \<and> \<not> filecmp w p dest
         then (dest_dir, dest_dir @ [stem_of dest @ ''_'' @ digits ts @ suffix_of dest])
         else (dest_dir, dest))"

definition quarantine_path_for :: "config \<Rightarrow> world \<Rightarrow> int \<Rightarrow> path \<Rightarrow> path" where
  "quarantine_path_for cfg w ts m =
     (let qpath = QUAR cfg @ [name_of m]
      in if path_exists w qpath then QUAR cfg @ [stem_of m @ ''_'' @ digits ts @ suffix_of m]
         else qpath)"

text \<open>
  The clock is an input: \<open>now k\<close> is the reading of the \<open>k\<close>-th place where a row may read
  it; row \<open>i\<close> reads \<open>now (2 * i)\<close> for its target and \<open>now (2 * i + 1)\<close> for its quarantine
  path.
\<close>

definition make_row :: "config \<Rightarrow> world \<Rightarrow> (nat \<Rightarrow> int) \<Rightarrow> nat \<times> decision \<Rightarrow> row" where
  "make_row cfg w now item =
     (case item of (i, s, m, act, why) \<Rightarrow>
        let tp = target_path_for cfg w (now (2 * i)) s;
            qpath = (case m of
                       Some mp \<Rightarrow>
                         if act = ''REPLACE_MASTER_WITH_SOURCE''
                         then Some (quarantine_path_for cfg w (now (2 * i + 1)) mp)
                         else None
                     | None \<Rightarrow> None)
        in \<lparr>action = act, src = s, master = m, target_dir = fst tp, target_path = snd tp,
            quarantine_path = qpath, reason = why, src_score = file_score cfg w s,
            master_score = map_option (file_score cfg w) m\<rparr>)"

text \<open>
  \<^verbatim>\<open>make_plan\<close>, from the outputs of the scans (\<open>MASTER_FILES\<close>, \<open>SOURCE_FILES\<close>) and of the
  grouping tool (\<open>exact_groups\<close>) to the rows written to the plan.
\<close>

definition make_plan ::
  "config \<Rightarrow> world \<Rightarrow> (nat \<Rightarrow> int) \<Rightarrow> path list \<Rightarrow> path list \<Rightarrow> path list list \<Rightarrow> row list" where
  "make_plan cfg w now MASTER_FILES SOURCE_FILES exact_groups =
     (let pairs_exact = pairs_exact_of cfg w exact_groups;
          pairs_sim = pairs_sim_of cfg w MASTER_FILES SOURCE_FILES exact_groups
      in map (make_row cfg w now) (enumerate 0 (pairs_exact @ pairs_sim)))"

section \<open>The file system and apply\<close>

text \<open>
  The file system that apply works on: the regular files with their contents, and the
  directories. \<^verbatim>\<open>Path.exists\<close> holds for both.
\<close>

record fsys =
  files :: "path \<rightharpoonup> string"
  dirs :: "path set"

datatype fs_error = FileExistsError | NotADirectoryError | FileNotFoundError
  | DestinationExists | DirectorySource

definition fs_exists :: "fsys \<Rightarrow> path \<Rightarrow> bool" where
  "fs_exists f p \<longleftrightarrow> files f p \<noteq> None \<or> p \<in> dirs f"

text \<open>
  \<^verbatim>\<open>d.mkdir(parents=True, exist_ok=True)\<close>: every missing prefix of \<open>d\<close> becomes a
  directory; the call raises when \<open>d\<close> or one of its parents exists and is not a
  directory.
\<close>

definition mkdir_p :: "fsys \<Rightarrow> path \<Rightarrow> fs_error + fsys" where
  "mkdir_p f d =
     (if \<exists>q \<in> set (prefixes d). files f q \<noteq> None \<and> q \<notin> dirs f
      then Inl (if files f d \<noteq> None \<and> d \<notin> dirs f then FileExistsError else NotADirectoryError)
      else Inr (f\<lparr>dirs := dirs f \<union> set (prefixes d)\<rparr>))"

definition rename :: "fsys \<Rightarrow> path \<Rightarrow> string \<Rightarrow> path \<Rightarrow> fsys" where
  "rename f a c r = f\<lparr>files := ((files f)(a := None))(r \<mapsto> c)\<rparr>"

text \<open>
  \<^verbatim>\<open>shutil.move(a, b)\<close> of a regular file on one device: into the directory \<open>b\<close> under the
  name of \<open>a\<close> when \<open>b\<close> is a directory (an error when that path is taken), and otherwise a
  rename, which replaces a file at \<open>b\<close> and needs the parent of \<open>b\<close> to be a directory.
  Moving a directory is not modelled: \<open>DirectorySource\<close> stands for that case.
\<close>

definition move :: "fsys \<Rightarrow> path \<Rightarrow> path \<Rightarrow> fs_error + fsys" where
  "move f a b =
     (if a \<in> dirs f then Inl DirectorySource
      else case files f a of
        None \<Rightarrow> Inl FileNotFoundError
      | Some c \<Rightarrow>
          if b \<in> dirs f
          then (let real_dst = b @ [name_of a]
                in if fs_exists f real_dst then Inl DestinationExists
                   else Inr (rename f a c real_dst))
          else if butlast b \<notin> dirs f then Inl FileNotFoundError
          else Inr (rename f a c b))"

datatype fs_op = Mkdir path | Move path path

text \<open>
  The state of one run of apply: the file system, the three counters, and the file-system
  calls that have returned so far, oldest first.
\<close>

record apply_state =
  fs :: fsys
  moved :: nat
  replaced :: nat
  kept :: nat
  trace :: "fs_op list"

type_synonym apply_step = "(fs_error \<times> apply_state) + apply_state"

definition do_mkdir :: "path \<Rightarrow> apply_state \<Rightarrow> apply_step" where
  "do_mkdir d st =
     (case mkdir_p (fs st) d of
        Inl e \<Rightarrow> Inl (e, st)
      | Inr f \<Rightarrow> Inr (st\<lparr>fs := f, trace := trace st @ [Mkdir d]\<rparr>))"

definition do_move :: "path \<Rightarrow> path \<Rightarrow> apply_state \<Rightarrow> apply_step" where
  "do_move a b st =
     (case move (fs st) a b of
        Inl e \<Rightarrow> Inl (e, st)
      | Inr f \<Rightarrow> Inr (st\<lparr>fs := f, trace := trace st @ [Move a b]\<rparr>))"

text \<open>Sequencing: an exception ends the run with the state reached.\<close>

definition and_then :: "apply_step \<Rightarrow> (apply_state \<Rightarrow> apply_step) \<Rightarrow> apply_step" where
  "and_then r k = (case r of Inl e \<Rightarrow> Inl e | Inr st \<Rightarrow> k st)"

text \<open>The quarantine half of a replace entry: \<^verbatim>\<open>if m.exists() and qpath: ...\<close>.\<close>

definition quarantine_master :: "config \<Rightarrow> path \<Rightarrow> path option \<Rightarrow> apply_state \<Rightarrow> apply_step" where
  "quarantine_master cfg m qpath st =
     (case qpath of
        Some q \<Rightarrow>
          if fs_exists (fs st) m
          then and_then (do_mkdir (QUAR cfg) st) (do_move m q)
          else Inr st
      | None \<Rightarrow> Inr st)"

definition move_if_exists :: "path \<Rightarrow> path \<Rightarrow> apply_state \<Rightarrow> apply_step" where
  "move_if_exists a b st = (if fs_exists (fs st) a then do_move a b st else Inr st)"

text \<open>The body of \<^verbatim>\<open>for row in r\<close>.\<close>

definition apply_entry :: "config \<Rightarrow> row \<Rightarrow> apply_state \<Rightarrow> apply_step" where
  "apply_entry cfg r st =
     (if action r = ''KEEP_MASTER'' then Inr (st\<lparr>kept := kept st + 1\<rparr>)
      else and_then (do_mkdir (target_dir r) st) (\<lambda>st1.
        if action r = ''MOVE_SOURCE''
        then and_then (if \<not> DRY_RUN cfg then move_if_exists (src r) (target_path r) st1 else Inr st1)
               (\<lambda>st2. Inr (st2\<lparr>moved := moved st2 + 1\<rparr>))
        else case master r of
          Some m \<Rightarrow>
            if action r = ''REPLACE_MASTER_WITH_SOURCE''
            then and_then
                   (if \<not> DRY_RUN cfg
                    then and_then (quarantine_master cfg m (quarantine_path r) st1)
                           (move_if_exists (src r) (target_path r))
                    else Inr st1)
                   (\<lambda>st2. Inr (st2\<lparr>replaced := replaced st2 + 1\<rparr>))
            else Inr st1
        | None \<Rightarrow> Inr st1))"

fun apply_rows :: "config \<Rightarrow> row list \<Rightarrow> apply_state \<Rightarrow> apply_step" where
  "apply_rows cfg [] st = Inr st"
| "apply_rows cfg (r # rs) st = and_then (apply_entry cfg r st) (apply_rows cfg rs)"

text \<open>
  How a run of apply ends: \<^verbatim>\<open>sys.exit\<close> with a status after a message on standard error,
  an exception of a file-system call, or the summary line on standard output.
\<close>

datatype outcome = SysExit int string | Raised fs_error | Done string

definition start_state :: "fsys \<Rightarrow> apply_state" where
  "start_state f = \<lparr>fs = f, moved = 0, replaced = 0, kept = 0, trace = []\<rparr>"

definition summary :: "apply_state \<Rightarrow> string" where
  "summary st = ''APPLY done. moved='' @ digits (int (moved st)) @ '', replaced=''
     @ digits (int (replaced st)) @ '', kept='' @ digits (int (kept st))"

text \<open>
  \<^verbatim>\<open>do_apply\<close>. The plan artifact is an input: \<open>None\<close> when \<^verbatim>\<open>PLAN_CSV\<close> does not exist,
  and its rows otherwise. The result is how the run ends and the state it leaves.
\<close>

definition do_apply :: "config \<Rightarrow> fsys \<Rightarrow> row list option \<Rightarrow> outcome \<times> apply_state" where
  "do_apply cfg f plan =
     (case plan of
        None \<Rightarrow> (SysExit 2 (''Plan missing. Run '' @ [CHR 0x27] @ ''plan'' @ [CHR 0x27] @ '' first.''), start_state f)
      | Some rows \<Rightarrow>
          (case apply_rows cfg rows (start_state f) of
             Inl (e, st) \<Rightarrow> (Raised e, st)
           | Inr st \<Rightarrow> (Done (summary st), st)))"

section \<open>Reference definitions\<close>

text \<open>
  The nearest master as the specification words it: among the master files with a present
  hash, in enumeration order, the first one whose Hamming distance to the source hash is
  minimal.
\<close>

fun hashed :: "(path \<times> bool list option) list \<Rightarrow> (path \<times> bool list) list" where
  "hashed [] = []"
| "hashed ((m, None) # r) = hashed r"
| "hashed ((m, Some h) # r) = (m, h) # hashed r"

definition is_nearest :: "bool list \<Rightarrow> (path \<times> bool list) list \<Rightarrow> path \<times> bool list \<Rightarrow> bool" where
  "is_nearest sh hs x \<longleftrightarrow> (\<forall>y \<in> set hs. hamming sh (snd x) \<le> hamming sh (snd y))"

definition spec_nearest :: "bool list \<Rightarrow> (path \<times> bool list) list \<Rightarrow> (path \<times> bool list) option" where
  "spec_nearest sh hs = find (is_nearest sh hs) hs"

text \<open>
  The three kinds of row that apply tallies, the state in which a run ends, and the
  relation between two states of a run that made no file-system call but \<^verbatim>\<open>mkdir\<close>.
\<close>

definition is_move :: "row \<Rightarrow> bool" where
  "is_move r \<longleftrightarrow> action r = ''MOVE_SOURCE''"

definition is_replace :: "row \<Rightarrow> bool" where
  "is_replace r \<longleftrightarrow> action r = ''REPLACE_MASTER_WITH_SOURCE'' \<and> master r \<noteq> None"

definition is_keep :: "row \<Rightarrow> bool" where
  "is_keep r \<longleftrightarrow> action r = ''KEEP_MASTER''"

definition final_state :: "apply_step \<Rightarrow> apply_state" where
  "final_state r = (case r of Inl (e, st) \<Rightarrow> st | Inr st \<Rightarrow> st)"

definition only_mkdirs :: "apply_state \<Rightarrow> apply_state \<Rightarrow> bool" where
  "only_mkdirs st st' \<longleftrightarrow>
     files (fs st') = files (fs st) \<and> dirs (fs st) \<subseteq> dirs (fs st')
     \<and> (\<exists>ds. trace st' = trace st @ map Mkdir ds)"

text \<open>
  For the replay of a plan: the paths a row moves a file away from (its source, and its
  master when a quarantine path is recorded), and the paths at which a row can make
  something exist (the target directory and its parents, the target path and the source's
  name below it, the quarantine directory and its parents, the quarantine path and the
  master's name below it).
\<close>

definition row_origins :: "row \<Rightarrow> path list" where
  "row_origins r =
     (if action r = ''MOVE_SOURCE'' then [src r]
      else case master r of
        None \<Rightarrow> []
      | Some m \<Rightarrow>
          if action r = ''REPLACE_MASTER_WITH_SOURCE''
          then src r # (case quarantine_path r of None \<Rightarrow> [] | Some q \<Rightarrow> [m])
          else [])"

definition row_created :: "config \<Rightarrow> row \<Rightarrow> path list" where
  "row_created cfg r =
     (if action r = ''KEEP_MASTER'' then []
      else prefixes (target_dir r) @
        (if action r = ''MOVE_SOURCE''
         then [target_path r, target_path r @ [name_of (src r)]]
         else case master r of
           None \<Rightarrow> []
         | Some m \<Rightarrow>
             if action r = ''REPLACE_MASTER_WITH_SOURCE''
             then [target_path r, target_path r @ [name_of (src r)]] @
                  (case quarantine_path r of
                     None \<Rightarrow> []
                   | Some q \<Rightarrow> prefixes (QUAR cfg) @ [q, q @ [name_of m]])
             else []))"

definition plan_origins :: "row list \<Rightarrow> path list" where
  "plan_origins rows = concat (map row_origins rows)"

definition plan_created :: "config \<Rightarrow> row list \<Rightarrow> path list" where
  "plan_created cfg rows = concat (map (row_created cfg) rows)"

text \<open>
  The directories a dry run asks for: the target directories of the rows that are not
  \<^verbatim>\<open>KEEP_MASTER\<close> rows, in plan order.
\<close>

definition mkdir_targets :: "row list \<Rightarrow> path list" where
  "mkdir_targets rows = map target_dir (filter (\<lambda>r. action r \<noteq> ''KEEP_MASTER'') rows)"

section \<open>Example inputs\<close>

text \<open>
  A master archive holding \<^verbatim>\<open>2020/01/vacation.jpg\<close>, a byte-identical copy of it in the
  source batch, and a larger, different picture of the same name in an album of the source
  batch.
\<close>

definition ex_cfg :: config where
  "ex_cfg = \<lparr>MASTER = [''data'', ''MobileBackup''], SOURCE = [''data'', ''Google Fotos''],
             QUAR = [''quarantine''], DRY_RUN = True, PHASH_THRESHOLD = 8,
             QUALITY_ORDER = [''raw'', ''heic'', ''jpeg'', ''png'', ''other'']\<rparr>"

definition ex_master :: path where
  "ex_master = [''data'', ''MobileBackup'', ''2020'', ''01'', ''vacation.jpg'']"

definition ex_source :: path where
  "ex_source = [''data'', ''Google Fotos'', ''vacation.jpg'']"

definition ex_source2 :: path where
  "ex_source2 = [''data'', ''Google Fotos'', ''album'', ''vacation.jpg'']"

definition ex_world :: world where
  "ex_world = \<lparr>image_size = (\<lambda>p. Some (1200, 800)), has_exif_datetime = (\<lambda>p. True),
         exif_yyyy_mm = (\<lambda>p. [''2020'', ''01'']),
         st_size = (\<lambda>p. if p = ex_source2 then 3000000 else 2000000),
         phash = (\<lambda>p. None), path_exists = (\<lambda>p. p = ex_master),
         read_1k = (\<lambda>p. if p = ex_source2 then Some ''B'' else Some ''A''),
         getsize = (\<lambda>p. if p = ex_source2 then Some 3000000 else Some 2000000)\<rparr>"

text \<open>
  A source picture whose hash is at distance 6 and 3 from the hashes of two master
  pictures (hashes shortened to eight bits).
\<close>

definition ex_img :: path where "ex_img = [''data'', ''Google Fotos'', ''IMG_001.heic'']"
definition ex_beach :: path where "ex_beach = [''data'', ''MobileBackup'', ''2019'', ''07'', ''beach.jpg'']"
definition ex_dunes :: path where "ex_dunes = [''data'', ''MobileBackup'', ''2019'', ''07'', ''dunes.jpg'']"

definition ex_world_h :: world where
  "ex_world_h = \<lparr>image_size = (\<lambda>p. Some (1200, 800)), has_exif_datetime = (\<lambda>p. True),
         exif_yyyy_mm = (\<lambda>p. [''2019'', ''07'']),
         st_size = (\<lambda>p. 2000000),
         phash = (\<lambda>p. if p = ex_img then Some [True, True, True, True, True, True, False, False]
                      else if p = ex_beach then Some [False, False, False, False, False, False, False, False]
                      else if p = ex_dunes then Some [True, True, True, False, False, False, False, False]
                      else None),
         path_exists = (\<lambda>p. p = ex_beach \<or> p = ex_dunes),
         read_1k = (\<lambda>p. Some ''A''),
         getsize = (\<lambda>p. Some 2000000)\<rparr>"

text \<open>
  Two different pictures of the same name in two folders of the source batch, taken in the
  same month; the master archive holds no file of that name.
\<close>

definition cx_a :: path where "cx_a = [''data'', ''Google Fotos'', ''a'', ''IMG_7.jpg'']"
definition cx_b :: path where "cx_b = [''data'', ''Google Fotos'', ''b'', ''IMG_7.jpg'']"

definition cx_world :: world where
  "cx_world = \<lparr>image_size = (\<lambda>p. Some (640, 480)), has_exif_datetime = (\<lambda>p. True),
         exif_yyyy_mm = (\<lambda>p. [''2021'', ''05'']),
         st_size = (\<lambda>p. if p = cx_a then 100 else 200),
         phash = (\<lambda>p. None), path_exists = (\<lambda>p. False),
         read_1k = (\<lambda>p. if p = cx_a then Some ''A'' else Some ''B''),
         getsize = (\<lambda>p. if p = cx_a then Some 100 else Some 200)\<rparr>"

text \<open>
  The plan made for the first example, the same configuration in live mode, a file system
  that holds the example's three files, one from which every file has gone, and the plan
  and file system of one of the two pictures named alike.
\<close>

definition ex_live :: config where
  "ex_live = ex_cfg\<lparr>DRY_RUN := False\<rparr>"

definition ex_plan :: "row list" where
  "ex_plan = make_plan ex_cfg ex_world (\<lambda>k. 1730000000) [ex_master] [ex_source, ex_source2]
               [[ex_master, ex_source]]"

definition ex_fs :: fsys where
  "ex_fs = \<lparr>files = (\<lambda>p. if p = ex_master then Some ''A'' else if p = ex_source then Some ''A''
                        else if p = ex_source2 then Some ''B'' else None),
            dirs = set [[], [''data''], [''data'', ''MobileBackup''],
                        [''data'', ''MobileBackup'', ''2020''],
                        [''data'', ''MobileBackup'', ''2020'', ''01''],
                        [''data'', ''Google Fotos''], [''data'', ''Google Fotos'', ''album'']]\<rparr>"

definition empty_fs :: fsys where
  "empty_fs = \<lparr>files = (\<lambda>p. None), dirs = set [[]]\<rparr>"

definition cx_plan :: "row list" where
  "cx_plan = make_plan ex_cfg cx_world (\<lambda>k. 1730000000) [] [cx_a] []"

definition cx_fs :: fsys where
  "cx_fs = \<lparr>files = (\<lambda>p. if p = cx_a then Some ''A'' else if p = cx_b then Some ''B'' else None),
            dirs = set [[], [''data''], [''data'', ''MobileBackup''],
                        [''data'', ''Google Fotos''], [''data'', ''Google Fotos'', ''a''],
                        [''data'', ''Google Fotos'', ''b'']]\<rparr>"

text \<open>
  The plan made for the near-duplicate example, and a file system holding its three files.
\<close>

definition h_plan :: "row list" where
  "h_plan = make_plan ex_cfg ex_world_h (\<lambda>k. 1730000000) [ex_beach, ex_dunes] [ex_img] []"

definition h_fs :: fsys where
  "h_fs = \<lparr>files = (\<lambda>p. if p = ex_img then Some ''I'' else if p = ex_beach then Some ''B''
                        else if p = ex_dunes then Some ''D'' else None),
            dirs = set [[], [''data''], [''data'', ''MobileBackup''],
                        [''data'', ''MobileBackup'', ''2019''],
                        [''data'', ''MobileBackup'', ''2019'', ''07''],
                        [''data'', ''Google Fotos'']]\<rparr>"

text \<open>
  A file system in which the master root is a regular file, so that no target directory
  can be made.
\<close>

definition blocked_fs :: fsys where
  "blocked_fs = \<lparr>files = (\<lambda>p. if p = cx_a then Some ''A''
                             else if p = [''data'', ''MobileBackup''] then Some ''X'' else None),
                 dirs = set [[], [''data''], [''data'', ''Google Fotos''],
                             [''data'', ''Google Fotos'', ''a'']]\<rparr>"

section \<open>Properties of the quality scorer\<close>

lemma ex_scores:
  "file_score ex_cfg ex_world ex_source2 = (2, - 960000, - 1, - 3000000)"
  "file_score ex_cfg ex_world ex_source = (2, - 960000, - 1, - 2000000)"
  "file_score ex_cfg ex_world ex_master = (2, - 960000, - 1, - 2000000)"
  by code_simp+

text \<open>
  C7. \<open>better a b\<close> is the file with the strictly lower score, whichever argument it is;
  on equal scores it is the second argument; so the two argument orders agree whenever
  the scores differ.
\<close>

theorem better_lower_score:
  "(file_score cfg w a < file_score cfg w b \<longrightarrow> better cfg w a b = a \<and> better cfg w b a = a) \<and>
   (file_score cfg w a = file_score cfg w b \<longrightarrow> better cfg w a b = b \<and> better cfg w b a = a) \<and>
   (file_score cfg w a \<noteq> file_score cfg w b \<longrightarrow> better cfg w a b = better cfg w b a)"
  by (auto simp: better_def)

theorem better_lower_score_witness:
  "file_score ex_cfg ex_world ex_source2 < file_score ex_cfg ex_world ex_master \<and>
   better ex_cfg ex_world ex_source2 ex_master = ex_source2 \<and>
   better ex_cfg ex_world ex_master ex_source2 = ex_source2 \<and>
   file_score ex_cfg ex_world ex_master = file_score ex_cfg ex_world ex_source \<and>
   better ex_cfg ex_world ex_master ex_source = ex_source \<and>
   better ex_cfg ex_world ex_source ex_master = ex_master \<and>
   file_score ex_cfg ex_world ex_source2 \<noteq> file_score ex_cfg ex_world ex_master \<and>
   better ex_cfg ex_world ex_source2 ex_master = better ex_cfg ex_world ex_master ex_source2"
  using better_lower_score [of ex_cfg ex_world ex_source2 ex_master]
        better_lower_score [of ex_cfg ex_world ex_master ex_source]
  by (simp add: ex_scores)

section \<open>Properties of exact-duplicate resolution\<close>

lemma best_of_snoc: "best_of cfg w c0 (cs @ [s]) = better cfg w (best_of cfg w c0 cs) s"
  by (simp add: best_of_def)

lemma best_of_mem: "best_of cfg w c0 cs \<in> set (c0 # cs)"
  unfolding best_of_def
  by (induction cs arbitrary: c0) (auto simp: better_def)

lemma foldl_better_le:
  "c \<in> set (c0 # cs) \<Longrightarrow> file_score cfg w (foldl (better cfg w) c0 cs) \<le> file_score cfg w c"
proof (induction cs arbitrary: c0 c)
  case Nil then show ?case by simp
next
  case (Cons x xs)
  let ?b = "better cfg w c0 x"
  have step: "file_score cfg w (foldl (better cfg w) ?b xs) \<le> file_score cfg w ?b"
    by (rule Cons.IH) simp
  have b: "file_score cfg w ?b \<le> file_score cfg w c0" "file_score cfg w ?b \<le> file_score cfg w x"
    by (auto simp: better_def)
  from Cons.prems consider "c = c0" | "c = x" | "c \<in> set xs" by auto
  then show ?case
  proof cases
    case 1 with step b(1) show ?thesis by simp
  next
    case 2 with step b(2) show ?thesis by simp
  next
    case 3 then have "file_score cfg w (foldl (better cfg w) ?b xs) \<le> file_score cfg w c"
      by (intro Cons.IH) simp
    then show ?thesis by simp
  qed
qed

lemma best_of_le:
  "c \<in> set (c0 # cs) \<Longrightarrow> file_score cfg w (best_of cfg w c0 cs) \<le> file_score cfg w c"
  unfolding best_of_def by (rule foldl_better_le)

text \<open>
  What the loop decides: a source member that is not itself a master member replaces a
  master exactly when no master member has a strictly lower score. A tie is enough.
\<close>

lemma exact_decision_replace_iff:
  assumes "s \<notin> set (m0 # ms)"
  shows "fst (snd (snd (exact_decision cfg w m0 ms s))) = ''REPLACE_MASTER_WITH_SOURCE''
         \<longleftrightarrow> (\<forall>m \<in> set (m0 # ms). file_score cfg w s \<le> file_score cfg w m)"
proof -
  let ?bm = "best_of cfg w m0 ms"
  have mem: "?bm \<in> set (m0 # ms)" by (rule best_of_mem)
  with assms have ne: "?bm \<noteq> s" by auto
  have "best_of cfg w m0 (ms @ [s]) = s \<longleftrightarrow> file_score cfg w s \<le> file_score cfg w ?bm"
    using ne by (auto simp: best_of_snoc better_def)
  also have "\<dots> \<longleftrightarrow> (\<forall>m \<in> set (m0 # ms). file_score cfg w s \<le> file_score cfg w m)"
    using mem best_of_le [of _ m0 ms cfg w] by (meson order_trans)
  finally show ?thesis
    by (simp add: exact_decision_def Let_def)
qed

text \<open>
  C1. The group of the master \<^verbatim>\<open>vacation.jpg\<close> and its byte-identical source copy: the two
  scores are equal, and the decision emitted for the source member is
  \<^verbatim>\<open>REPLACE_MASTER_WITH_SOURCE\<close> with reason \<^verbatim>\<open>exact_dup_better_source\<close>, although the source
  is not strictly better than the master.
\<close>

theorem exact_tie_replaces_master:
  "file_score ex_cfg ex_world ex_source = file_score ex_cfg ex_world ex_master \<and>
   resolve_group ex_cfg ex_world [ex_master, ex_source]
     = [(ex_source, Some ex_master, ''REPLACE_MASTER_WITH_SOURCE'', ''exact_dup_better_source'')]"
  by code_simp

section \<open>Properties of apply\<close>

text \<open>
  C9. Without a plan artifact \<^verbatim>\<open>do_apply\<close> writes the message to standard error and exits
  with status 2; the file system is as before, no file-system call was made and nothing
  was tallied.
\<close>

theorem apply_without_plan_is_fatal:
  "do_apply cfg f None =
     (SysExit 2 (''Plan missing. Run '' @ [CHR 0x27] @ ''plan'' @ [CHR 0x27] @ '' first.''),
      start_state f)
   \<and> fs (snd (do_apply cfg f None)) = f
   \<and> trace (snd (do_apply cfg f None)) = []
   \<and> moved (snd (do_apply cfg f None)) = 0 \<and> replaced (snd (do_apply cfg f None)) = 0
   \<and> kept (snd (do_apply cfg f None)) = 0"
  by (simp add: do_apply_def start_state_def)

section \<open>Properties of near-duplicate resolution\<close>

lemma hamming_le: "hamming a b \<le> int (length a)"
proof -
  have "length (filter (\<lambda>(x, y). x \<noteq> y) (zip a b)) \<le> length (zip a b)" by (rule length_filter_le)
  then show ?thesis by (simp add: hamming_def)
qed

lemma exists_nearest:
  assumes "hs \<noteq> []"
  shows "\<exists>x \<in> set hs. is_nearest sh hs x"
proof -
  let ?D = "(\<lambda>y. hamming sh (snd y)) ` set hs"
  have "Min ?D \<in> ?D" using assms by (intro Min_in) auto
  then obtain x where x: "x \<in> set hs" "hamming sh (snd x) = Min ?D" by auto
  have "is_nearest sh hs x"
    unfolding is_nearest_def using x(2) by (simp add: Min_le)
  with x(1) show ?thesis by blast
qed

lemma foldl_scan_step:
  "foldl (scan_step sh) (bm, bd) mh =
     (case find (\<lambda>x. hamming sh (snd x) < bd \<and> is_nearest sh (hashed mh) x) (hashed mh) of
        None \<Rightarrow> (bm, bd)
      | Some x \<Rightarrow> (Some (fst x), hamming sh (snd x)))"
proof (induction mh arbitrary: bm bd)
  case Nil
  then show ?case by simp
next
  case (Cons item r)
  obtain m ho where item: "item = (m, ho)" by (cases item)
  show ?case
  proof (cases ho)
    case None
    with item Cons.IH [of bm bd] show ?thesis by (simp add: scan_step_def)
  next
    case (Some h)
    let ?d = "hamming sh h"
    show ?thesis
    proof (cases "?d < bd")
      case lt: True
      have acc: "scan_step sh (bm, bd) item = (Some m, ?d)"
        using item Some lt by (simp add: scan_step_def)
      show ?thesis
      proof (cases "\<forall>y \<in> set (hashed r). ?d \<le> hamming sh (snd y)")
        case True
        have "find (\<lambda>x. hamming sh (snd x) < ?d \<and> is_nearest sh (hashed r) x) (hashed r) = None"
          using True by (auto simp: find_None_iff)
        moreover have "is_nearest sh ((m, h) # hashed r) (m, h)"
          using True by (simp add: is_nearest_def)
        ultimately show ?thesis
          using item Some lt acc Cons.IH [of "Some m" ?d] by simp
      next
        case False
        then obtain y where y: "y \<in> set (hashed r)" "hamming sh (snd y) < ?d" by force
        have eq: "find (\<lambda>x. hamming sh (snd x) < ?d \<and> is_nearest sh (hashed r) x) (hashed r)
                = find (\<lambda>x. hamming sh (snd x) < bd \<and> is_nearest sh ((m, h) # hashed r) x) (hashed r)"
        proof (rule find_cong [OF refl])
          fix x assume "x \<in> set (hashed r)"
          show "(hamming sh (snd x) < ?d \<and> is_nearest sh (hashed r) x)
              = (hamming sh (snd x) < bd \<and> is_nearest sh ((m, h) # hashed r) x)"
            using y lt by (fastforce simp: is_nearest_def)
        qed
        have nn: "\<not> is_nearest sh ((m, h) # hashed r) (m, h)"
          using y by (force simp: is_nearest_def)
        from y(1) have "hashed r \<noteq> []" by auto
        then obtain x where x: "x \<in> set (hashed r)" "is_nearest sh (hashed r) x"
          using exists_nearest by blast
        from x(2) y have "hamming sh (snd x) < ?d" by (force simp: is_nearest_def)
        with x have "find (\<lambda>x. hamming sh (snd x) < ?d \<and> is_nearest sh (hashed r) x) (hashed r) \<noteq> None"
          unfolding find_None_iff by blast
        then obtain z where z: "find (\<lambda>x. hamming sh (snd x) < ?d \<and> is_nearest sh (hashed r) x) (hashed r) = Some z"
          by blast
        from eq z have z': "find (\<lambda>x. hamming sh (snd x) < bd \<and> is_nearest sh ((m, h) # hashed r) x) (hashed r) = Some z"
          by simp
        have lhs: "foldl (scan_step sh) (bm, bd) (item # r) = (Some (fst z), hamming sh (snd z))"
          using acc Cons.IH [of "Some m" ?d] z by simp
        have rhs: "find (\<lambda>x. hamming sh (snd x) < bd \<and> is_nearest sh (hashed (item # r)) x) (hashed (item # r)) = Some z"
          using item Some nn z' by simp
        show ?thesis unfolding lhs rhs by simp
      qed
    next
      case ge: False
      have acc: "scan_step sh (bm, bd) item = (bm, bd)"
        using item Some ge by (simp add: scan_step_def)
      have eq: "find (\<lambda>x. hamming sh (snd x) < bd \<and> is_nearest sh (hashed r) x) (hashed r)
              = find (\<lambda>x. hamming sh (snd x) < bd \<and> is_nearest sh ((m, h) # hashed r) x) (hashed r)"
      proof (rule find_cong [OF refl])
        fix x assume "x \<in> set (hashed r)"
        show "(hamming sh (snd x) < bd \<and> is_nearest sh (hashed r) x)
            = (hamming sh (snd x) < bd \<and> is_nearest sh ((m, h) # hashed r) x)"
          using ge by (auto simp: is_nearest_def)
      qed
      show ?thesis
        using item Some ge acc Cons.IH [of bm bd] eq by simp
    qed
  qed
qed

lemma nearest_spec:
  assumes "length sh < 999"
  shows "nearest sh mh =
     (case spec_nearest sh (hashed mh) of
        None \<Rightarrow> (None, 999)
      | Some x \<Rightarrow> (Some (fst x), hamming sh (snd x)))"
proof -
  have lt: "hamming sh h < 999" for h
    using hamming_le [of sh h] assms by linarith
  have "find (\<lambda>x. hamming sh (snd x) < 999 \<and> is_nearest sh (hashed mh) x) (hashed mh)
      = find (is_nearest sh (hashed mh)) (hashed mh)"
    by (rule find_cong [OF refl]) (simp add: lt)
  then show ?thesis
    by (simp add: nearest_def spec_nearest_def foldl_scan_step)
qed

lemma spec_nearest_None: "spec_nearest sh hs = None \<longleftrightarrow> hs = []"
proof
  assume n: "spec_nearest sh hs = None"
  show "hs = []"
  proof (rule ccontr)
    assume "hs \<noteq> []"
    then obtain x where "x \<in> set hs" "is_nearest sh hs x"
      using exists_nearest by blast
    with n show False unfolding spec_nearest_def find_None_iff by blast
  qed
next
  assume "hs = []" then show "spec_nearest sh hs = None" by (simp add: spec_nearest_def)
qed

lemma hashed_mem: "(m, h) \<in> set (hashed mh) \<longleftrightarrow> (m, Some h) \<in> set mh"
  by (induction mh rule: hashed.induct) auto

lemma spec_nearest_Some:
  assumes "spec_nearest sh hs = Some x"
  shows "\<exists>i < length hs. hs ! i = x \<and> (\<forall>y \<in> set hs. hamming sh (snd x) \<le> hamming sh (snd y))
           \<and> (\<forall>j < i. hamming sh (snd x) < hamming sh (snd (hs ! j)))"
proof -
  from assms obtain i where i: "i < length hs" "is_nearest sh hs (hs ! i)" "x = hs ! i"
     "\<forall>j < i. \<not> is_nearest sh hs (hs ! j)"
    by (auto simp: spec_nearest_def find_Some_iff)
  have min: "\<forall>y \<in> set hs. hamming sh (snd x) \<le> hamming sh (snd y)"
    using i(2,3) by (simp add: is_nearest_def)
  have "hamming sh (snd x) < hamming sh (snd (hs ! j))" if "j < i" for j
  proof (rule ccontr)
    assume "\<not> ?thesis"
    then have "hamming sh (snd (hs ! j)) \<le> hamming sh (snd x)" by simp
    with min have "is_nearest sh hs (hs ! j)" unfolding is_nearest_def by (meson order_trans)
    with i(4) that show False by simp
  qed
  with i min show ?thesis by auto
qed

lemma set_update_subset: "set (AList.update k v al) \<subseteq> insert (k, v) (set al)"
  by (induction al) auto

lemma collect_fold_distinct:
  "distinct (map fst acc) \<Longrightarrow> distinct (map fst (foldl (\<lambda>out p. AList.update p (f p) out) acc ps))"
  by (induction ps arbitrary: acc) (simp_all add: distinct_update)

lemma collect_fold_keys:
  "fst ` set (foldl (\<lambda>out p. AList.update p (f p) out) acc ps) = fst ` set acc \<union> set ps"
  by (induction ps arbitrary: acc) (auto simp: dom_update)

lemma collect_fold_values:
  "\<forall>x \<in> set acc. snd x = f (fst x) \<Longrightarrow>
   \<forall>x \<in> set (foldl (\<lambda>out p. AList.update p (f p) out) acc ps). snd x = f (fst x)"
proof (induction ps arbitrary: acc)
  case Nil then show ?case by simp
next
  case (Cons p ps)
  have "\<forall>x \<in> set (AList.update p (f p) acc). snd x = f (fst x)"
    using Cons.prems set_update_subset [of p "f p" acc] by auto
  then show ?case using Cons.IH by simp
qed

lemma collect_distinct: "distinct (map fst (collect_by_phash w ps))"
  unfolding collect_by_phash_def by (rule collect_fold_distinct) simp

lemma collect_keys: "fst ` set (collect_by_phash w ps) = set ps"
  unfolding collect_by_phash_def by (simp add: collect_fold_keys)

lemma collect_values: "x \<in> set (collect_by_phash w ps) \<Longrightarrow> snd x = phash w (fst x)"
  using collect_fold_values [of "[]" "phash w" ps] unfolding collect_by_phash_def by simp

lemma collect_mem: "s \<in> set ps \<Longrightarrow> (s, phash w s) \<in> set (collect_by_phash w ps)"
proof -
  assume "s \<in> set ps"
  then have "s \<in> fst ` set (collect_by_phash w ps)" by (simp add: collect_keys)
  then obtain x where x: "x \<in> set (collect_by_phash w ps)" "fst x = s" by auto
  with collect_values [OF x(1)] have "x = (s, phash w s)" by (cases x) simp
  with x(1) show ?thesis by simp
qed

lemma filter_key_distinct:
  "distinct (map fst al) \<Longrightarrow> (k, v) \<in> set al \<Longrightarrow> filter (\<lambda>x. fst x = k) al = [(k, v)]"
proof (induction al)
  case Nil then show ?case by simp
next
  case (Cons a al)
  show ?case
  proof (cases "fst a = k")
    case True
    with Cons.prems have "k \<notin> fst ` set al" by auto
    then have "filter (\<lambda>x. fst x = k) al = []" by (auto simp: filter_empty_conv)
    moreover from True Cons.prems have "a = (k, v)" by (cases a) force
    ultimately show ?thesis by simp
  next
    case False
    with Cons show ?thesis by auto
  qed
qed

lemma fst_sim_decision: "fst (sim_decision cfg w mh item) = fst item"
  by (simp add: sim_decision_def Let_def split: option.splits)

lemma sim_decision_spec:
  assumes "\<forall>sh. snd item = Some sh \<longrightarrow> length sh < 999"
  shows "sim_decision cfg w mh item =
     (case snd item of
        None \<Rightarrow> (fst item, None, ''MOVE_SOURCE'', ''no_phash'')
      | Some sh \<Rightarrow>
          (case spec_nearest sh (hashed mh) of
             None \<Rightarrow> (fst item, None, ''MOVE_SOURCE'', ''unique_vs_master'')
           | Some (bm, h) \<Rightarrow>
               if hamming sh h \<le> PHASH_THRESHOLD cfg
               then (if better cfg w (fst item) bm = fst item
                     then (fst item, Some bm, ''REPLACE_MASTER_WITH_SOURCE'',
                           ''phash_dup_d'' @ str_int (hamming sh h) @ ''_better_source'')
                     else (fst item, Some bm, ''KEEP_MASTER'',
                           ''phash_dup_d'' @ str_int (hamming sh h) @ ''_master_better''))
               else (fst item, None, ''MOVE_SOURCE'', ''unique_vs_master'')))"
proof (cases "snd item")
  case None
  then show ?thesis by (simp add: sim_decision_def)
next
  case (Some sh)
  with assms have "length sh < 999" by simp
  from nearest_spec [OF this, of mh] Some show ?thesis
    by (simp add: sim_decision_def Let_def split: option.splits prod.splits)
qed

text \<open>
  C4. A source file that the exact phase did not resolve gets exactly one near-duplicate
  decision: \<^verbatim>\<open>MOVE_SOURCE\<close>/\<^verbatim>\<open>no_phash\<close> without a hash; with a hash, the decision names the
  first minimum-distance master among those with a hash and is a replace or a keep whose
  reason holds the distance, when that distance is at most the threshold; and
  \<^verbatim>\<open>MOVE_SOURCE\<close>/\<^verbatim>\<open>unique_vs_master\<close> otherwise. Hashes are shorter than the initial
  \<^verbatim>\<open>best_d = 999\<close> (the hashing library returns 64 bits).
\<close>

theorem near_duplicate_classification:
  assumes bits: "\<forall>p h. phash w p = Some h \<longrightarrow> length h < 999"
    and s: "s \<in> set SOURCE_FILES" "s \<notin> exact_src_dups_of cfg w exact_groups"
  shows "filter (\<lambda>d. fst d = s) (pairs_sim_of cfg w MASTER_FILES SOURCE_FILES exact_groups) =
     [case phash w s of
        None \<Rightarrow> (s, None, ''MOVE_SOURCE'', ''no_phash'')
      | Some sh \<Rightarrow>
          (case spec_nearest sh (hashed (collect_by_phash w MASTER_FILES)) of
             None \<Rightarrow> (s, None, ''MOVE_SOURCE'', ''unique_vs_master'')
           | Some (bm, h) \<Rightarrow>
               if hamming sh h \<le> PHASH_THRESHOLD cfg
               then (if better cfg w s bm = s
                     then (s, Some bm, ''REPLACE_MASTER_WITH_SOURCE'',
                           ''phash_dup_d'' @ str_int (hamming sh h) @ ''_better_source'')
                     else (s, Some bm, ''KEEP_MASTER'',
                           ''phash_dup_d'' @ str_int (hamming sh h) @ ''_master_better''))
               else (s, None, ''MOVE_SOURCE'', ''unique_vs_master''))]"
proof -
  let ?rem = "remaining_of cfg w exact_groups SOURCE_FILES"
  let ?mh = "collect_by_phash w MASTER_FILES"
  let ?g = "sim_decision cfg w ?mh"
  from s have "s \<in> set ?rem" by (simp add: remaining_of_def)
  then have mem: "(s, phash w s) \<in> set (collect_by_phash w ?rem)" by (rule collect_mem)
  have "filter (\<lambda>d. fst d = s) (map ?g (collect_by_phash w ?rem))
      = map ?g (filter (\<lambda>x. fst x = s) (collect_by_phash w ?rem))"
    by (simp add: filter_map o_def fst_sim_decision)
  also have "\<dots> = [?g (s, phash w s)]"
    using filter_key_distinct [OF collect_distinct mem] by simp
  finally have "filter (\<lambda>d. fst d = s) (pairs_sim_of cfg w MASTER_FILES SOURCE_FILES exact_groups)
      = [?g (s, phash w s)]"
    by (simp add: pairs_sim_of_def Let_def)
  moreover have "\<forall>sh. snd (s, phash w s) = Some sh \<longrightarrow> length sh < 999"
    using bits by simp
  ultimately show ?thesis
    using sim_decision_spec [of "(s, phash w s)" cfg w ?mh]
    by (simp split: option.split prod.split)
qed

theorem near_duplicate_classification_witness:
  "ex_img \<in> set [ex_img] \<and> ex_img \<notin> exact_src_dups_of ex_cfg ex_world_h [] \<and>
   filter (\<lambda>d. fst d = ex_img) (pairs_sim_of ex_cfg ex_world_h [ex_beach, ex_dunes] [ex_img] [])
     = [(ex_img, Some ex_dunes, ''REPLACE_MASTER_WITH_SOURCE'', ''phash_dup_d3_better_source'')]"
proof -
  have h1: "\<forall>p h. phash ex_world_h p = Some h \<longrightarrow> length h < 999"
    by (auto simp: ex_world_h_def split: if_splits)
  have h2: "ex_img \<in> set [ex_img]" by simp
  have h3: "ex_img \<notin> exact_src_dups_of ex_cfg ex_world_h []"
    by (simp add: exact_src_dups_of_def pairs_exact_of_def)
  have ev: "(case phash ex_world_h ex_img of
        None \<Rightarrow> (ex_img, None, ''MOVE_SOURCE'', ''no_phash'')
      | Some sh \<Rightarrow>
          (case spec_nearest sh (hashed (collect_by_phash ex_world_h [ex_beach, ex_dunes])) of
             None \<Rightarrow> (ex_img, None, ''MOVE_SOURCE'', ''unique_vs_master'')
           | Some (bm, h) \<Rightarrow>
               if hamming sh h \<le> PHASH_THRESHOLD ex_cfg
               then (if better ex_cfg ex_world_h ex_img bm = ex_img
                     then (ex_img, Some bm, ''REPLACE_MASTER_WITH_SOURCE'',
                           ''phash_dup_d'' @ str_int (hamming sh h) @ ''_better_source'')
                     else (ex_img, Some bm, ''KEEP_MASTER'',
                           ''phash_dup_d'' @ str_int (hamming sh h) @ ''_master_better''))
               else (ex_img, None, ''MOVE_SOURCE'', ''unique_vs_master'')))
     = (ex_img, Some ex_dunes, ''REPLACE_MASTER_WITH_SOURCE'', ''phash_dup_d3_better_source'')"
    by code_simp
  show ?thesis
    using near_duplicate_classification [OF h1 h2 h3, of "[ex_beach, ex_dunes]"] h2 h3
    unfolding ev by simp
qed

section \<open>Every source file is planned once\<close>

lemma fst_exact_decision: "fst (exact_decision cfg w m0 ms s) = s"
  by (simp add: exact_decision_def Let_def)

lemma map_fst_resolve_group:
  "map fst (resolve_group cfg w g)
     = filter (\<lambda>p. has_master_of cfg g \<noteq> [] \<and> startswith (str_of p) (str_of (SOURCE cfg))) g"
proof (cases "has_master_of cfg g")
  case Nil
  then show ?thesis by (simp add: resolve_group_def)
next
  case (Cons m0 ms)
  have "map fst (map (exact_decision cfg w m0 ms) (has_source_of cfg g)) = has_source_of cfg g"
    by (simp add: o_def fst_exact_decision)
  with Cons show ?thesis
    by (simp add: resolve_group_def has_source_of_def)
qed

lemma distinct_concat_filter:
  "distinct (concat gs) \<Longrightarrow> distinct (concat (map (\<lambda>g. filter (Q g) g) gs))"
proof (induction gs)
  case Nil then show ?case by simp
next
  case (Cons g gs)
  then have "distinct (filter (Q g) g)" "distinct (concat (map (\<lambda>g. filter (Q g) g) gs))"
    by simp_all
  moreover have "set (filter (Q g) g) \<inter> set (concat (map (\<lambda>g. filter (Q g) g) gs)) = {}"
    using Cons.prems by auto
  ultimately show ?case by simp
qed

lemma distinct_pairs_exact:
  assumes "distinct (concat exact_groups)"
  shows "distinct (map fst (pairs_exact_of cfg w exact_groups))"
proof -
  have "map fst (pairs_exact_of cfg w exact_groups)
      = concat (map (\<lambda>g. filter (\<lambda>p. has_master_of cfg g \<noteq> [] \<and> startswith (str_of p) (str_of (SOURCE cfg))) g) exact_groups)"
    by (simp add: pairs_exact_of_def map_concat o_def map_fst_resolve_group)
  with distinct_concat_filter [OF assms] show ?thesis by simp
qed

lemma map_fst_pairs_sim:
  "map fst (pairs_sim_of cfg w MASTER_FILES SOURCE_FILES exact_groups)
     = map fst (collect_by_phash w (remaining_of cfg w exact_groups SOURCE_FILES))"
  by (simp add: pairs_sim_of_def Let_def o_def fst_sim_decision)

lemma src_make_row: "src (make_row cfg w now (i, d)) = fst d"
  by (cases d) (simp add: make_row_def Let_def split: prod.splits)

lemma map_src_make_plan:
  "map src (make_plan cfg w now MASTER_FILES SOURCE_FILES exact_groups)
     = map fst (pairs_exact_of cfg w exact_groups
                @ pairs_sim_of cfg w MASTER_FILES SOURCE_FILES exact_groups)"
proof -
  have "map (src \<circ> make_row cfg w now) (enumerate 0 ds) = map (fst \<circ> snd) (enumerate 0 ds)" for ds
    by (rule map_cong [OF refl]) (auto simp: src_make_row)
  then show ?thesis
    by (simp add: make_plan_def Let_def flip: map_map)
qed

lemma count_in_distinct:
  "distinct xs \<Longrightarrow> length (filter (\<lambda>x. x = s) xs) = (if s \<in> set xs then 1 else 0)"
  by (induction xs) auto

lemma length_filter_map: "length (filter (\<lambda>r. f r = s) xs) = length (filter (\<lambda>x. x = s) (map f xs))"
  by (induction xs) auto

text \<open>
  C8. When the exact-duplicate groups are pairwise disjoint lists without repetition, every
  scanned source file is the source of exactly one row of the plan: of one exact decision
  and no near-duplicate decision when the exact phase resolved it, and of no exact
  decision and one near-duplicate decision otherwise.
\<close>

theorem every_source_file_in_one_entry:
  assumes groups: "distinct (concat exact_groups)"
    and s: "s \<in> set SOURCE_FILES"
  shows "length (filter (\<lambda>r. src r = s)
            (make_plan cfg w now MASTER_FILES SOURCE_FILES exact_groups)) = 1
       \<and> length (filter (\<lambda>d. fst d = s) (pairs_exact_of cfg w exact_groups))
           = (if s \<in> exact_src_dups_of cfg w exact_groups then 1 else 0)
       \<and> length (filter (\<lambda>d. fst d = s)
            (pairs_sim_of cfg w MASTER_FILES SOURCE_FILES exact_groups))
           = (if s \<in> exact_src_dups_of cfg w exact_groups then 0 else 1)"
proof -
  let ?pe = "pairs_exact_of cfg w exact_groups"
  let ?ps = "pairs_sim_of cfg w MASTER_FILES SOURCE_FILES exact_groups"
  let ?rem = "remaining_of cfg w exact_groups SOURCE_FILES"
  have de: "distinct (map fst ?pe)" by (rule distinct_pairs_exact [OF groups])
  have ds: "distinct (map fst ?ps)" by (simp add: map_fst_pairs_sim collect_distinct)
  have ss: "set (map fst ?ps) = set ?rem"
    using collect_keys [of w ?rem] by (simp add: map_fst_pairs_sim)
  have e: "length (filter (\<lambda>d. fst d = s) ?pe) = (if s \<in> exact_src_dups_of cfg w exact_groups then 1 else 0)"
    using count_in_distinct [OF de, of s]
    by (simp add: length_filter_map [of fst] exact_src_dups_of_def)
  have m: "s \<in> set ?rem \<longleftrightarrow> s \<notin> exact_src_dups_of cfg w exact_groups"
    using s by (simp add: remaining_of_def)
  have n: "length (filter (\<lambda>d. fst d = s) ?ps) = (if s \<in> exact_src_dups_of cfg w exact_groups then 0 else 1)"
    using count_in_distinct [OF ds, of s] ss m
    by (simp add: length_filter_map [of fst])
  have "length (filter (\<lambda>r. src r = s) (make_plan cfg w now MASTER_FILES SOURCE_FILES exact_groups))
      = length (filter (\<lambda>x. x = s) (map fst (?pe @ ?ps)))"
    by (simp only: length_filter_map [of src] map_src_make_plan)
  also have "\<dots> = length (filter (\<lambda>d. fst d = s) ?pe) + length (filter (\<lambda>d. fst d = s) ?ps)"
    by (simp add: length_filter_map [of fst])
  also have "\<dots> = 1" using e n by simp
  finally show ?thesis using e n by simp
qed

theorem every_source_file_in_one_entry_witness:
  "distinct (concat [[ex_master, ex_source]]) \<and> ex_source \<in> set [ex_source, ex_source2] \<and>
   ex_source2 \<in> set [ex_source, ex_source2] \<and>
   map src (make_plan ex_cfg ex_world (\<lambda>k. 1730000000) [ex_master] [ex_source, ex_source2]
              [[ex_master, ex_source]]) = [ex_source, ex_source2] \<and>
   length (filter (\<lambda>r. src r = ex_source)
     (make_plan ex_cfg ex_world (\<lambda>k. 1730000000) [ex_master] [ex_source, ex_source2]
        [[ex_master, ex_source]])) = 1 \<and>
   length (filter (\<lambda>r. src r = ex_source2)
     (make_plan ex_cfg ex_world (\<lambda>k. 1730000000) [ex_master] [ex_source, ex_source2]
        [[ex_master, ex_source]])) = 1"
proof -
  have h1: "distinct (concat [[ex_master, ex_source]])" by code_simp
  have h2: "ex_source \<in> set [ex_source, ex_source2]" by simp
  have h3: "ex_source2 \<in> set [ex_source, ex_source2]" by simp
  have ev: "map src (make_plan ex_cfg ex_world (\<lambda>k. 1730000000) [ex_master] [ex_source, ex_source2]
              [[ex_master, ex_source]]) = [ex_source, ex_source2]"
    by code_simp
  show ?thesis
    using every_source_file_in_one_entry [OF h1 h2, of ex_cfg ex_world "\<lambda>k. 1730000000" "[ex_master]"]
          every_source_file_in_one_entry [OF h1 h3, of ex_cfg ex_world "\<lambda>k. 1730000000" "[ex_master]"]
          h1 h2 h3 ev
    by simp
qed

section \<open>Properties of target paths\<close>

text \<open>
  C2, as stated, fails: the two pictures differ in size and in their first bytes, map to
  the same bucket and name, and both rows of the plan get the same target path.
\<close>

theorem two_entries_share_target_path:
  "map src (make_plan ex_cfg cx_world (\<lambda>k. 1730000000) [] [cx_a, cx_b] []) = [cx_a, cx_b] \<and>
   map target_path (make_plan ex_cfg cx_world (\<lambda>k. 1730000000) [] [cx_a, cx_b] [])
     = [[''data'', ''MobileBackup'', ''2021'', ''05'', ''IMG_7.jpg''],
        [''data'', ''MobileBackup'', ''2021'', ''05'', ''IMG_7.jpg'']] \<and>
   cx_a \<noteq> cx_b \<and>
   getsize cx_world cx_a \<noteq> getsize cx_world cx_b \<and>
   read_1k cx_world cx_a \<noteq> read_1k cx_world cx_b \<and>
   \<not> filecmp cx_world cx_a cx_b"
  by code_simp

lemma name_of_snoc: "name_of (d @ [n]) = n"
  by (simp add: name_of_def)

lemma stem_suffix: "stem_of p @ suffix_of p = name_of p"
  by (simp add: stem_of_def suffix_of_def Let_def)

lemma suffixed_name_differs: "stem_of p @ ''_'' @ digits ts @ suffix_of p \<noteq> name_of p"
proof
  assume "stem_of p @ ''_'' @ digits ts @ suffix_of p = name_of p"
  then have "length (stem_of p @ ''_'' @ digits ts @ suffix_of p) = length (stem_of p @ suffix_of p)"
    by (simp only: stem_suffix)
  then show False by simp
qed

lemma target_path_for_cases:
  "target_path_for cfg w ts p =
     (let dest_dir = MASTER cfg @ exif_yyyy_mm w p; nominal = dest_dir @ [name_of p]
      in if path_exists w nominal \<and> \<not> filecmp w p nominal
         then (dest_dir, dest_dir @ [stem_of nominal @ ''_'' @ digits ts @ suffix_of nominal])
         else (dest_dir, nominal))"
  by (simp add: target_path_for_def Let_def)

lemma plan_nth:
  assumes "i < length (make_plan cfg w now MF SF gs)"
  shows "make_plan cfg w now MF SF gs ! i
           = make_row cfg w now (i, (pairs_exact_of cfg w gs @ pairs_sim_of cfg w MF SF gs) ! i)"
  using assms by (simp add: make_plan_def Let_def nth_enumerate_eq)

lemma make_row_target:
  "target_dir (make_row cfg w now (i, d)) = fst (target_path_for cfg w (now (2 * i)) (fst d))"
  "target_path (make_row cfg w now (i, d)) = snd (target_path_for cfg w (now (2 * i)) (fst d))"
  "src (make_row cfg w now (i, d)) = fst d"
  by (cases d; simp add: make_row_def Let_def split: prod.splits)+

text \<open>
  C2, amended. The resolver looks only at the file that occupies the nominal target path
  (bucket directory and source file name) when the plan is made: the target path of a row
  is the nominal path, unless a file exists there that differs from the source file in
  size or in its first 1024 bytes; then it is the nominal name with an underscore and the
  clock reading put before the extension, which is not the nominal path.
\<close>

theorem target_path_avoids_occupied_nominal:
  assumes "i < length (make_plan cfg w now MASTER_FILES SOURCE_FILES exact_groups)"
  shows "let r = make_plan cfg w now MASTER_FILES SOURCE_FILES exact_groups ! i;
             nominal = MASTER cfg @ exif_yyyy_mm w (src r) @ [name_of (src r)]
         in target_dir r = MASTER cfg @ exif_yyyy_mm w (src r) \<and>
            (if path_exists w nominal \<and> \<not> filecmp w (src r) nominal
             then target_path r =
                    target_dir r @ [stem_of nominal @ ''_'' @ digits (now (2 * i)) @ suffix_of nominal]
                  \<and> target_path r \<noteq> nominal
             else target_path r = nominal)"
proof -
  define d where "d = (pairs_exact_of cfg w exact_groups
                         @ pairs_sim_of cfg w MASTER_FILES SOURCE_FILES exact_groups) ! i"
  have r: "make_plan cfg w now MASTER_FILES SOURCE_FILES exact_groups ! i = make_row cfg w now (i, d)"
    unfolding d_def by (rule plan_nth [OF assms])
  let ?p = "fst d"
  let ?nominal = "MASTER cfg @ exif_yyyy_mm w ?p @ [name_of ?p]"
  have n: "name_of ?nominal = name_of ?p"
    using name_of_snoc [of "MASTER cfg @ exif_yyyy_mm w ?p" "name_of ?p"] by simp
  have ne: "stem_of ?nominal @ ''_'' @ digits (now (2 * i)) @ suffix_of ?nominal \<noteq> name_of ?p"
    using suffixed_name_differs [of ?nominal] n by simp
  show ?thesis
    unfolding r Let_def make_row_target target_path_for_cases
    using ne by simp
qed

theorem target_path_avoids_occupied_nominal_witness:
  "Suc 0 < length (make_plan ex_cfg ex_world (\<lambda>k. 1730000000) [ex_master] [ex_source, ex_source2]
              [[ex_master, ex_source]]) \<and>
   src (make_plan ex_cfg ex_world (\<lambda>k. 1730000000) [ex_master] [ex_source, ex_source2]
              [[ex_master, ex_source]] ! Suc 0) = ex_source2 \<and>
   path_exists ex_world ex_master \<and> \<not> filecmp ex_world ex_source2 ex_master \<and>
   target_path (make_plan ex_cfg ex_world (\<lambda>k. 1730000000) [ex_master] [ex_source, ex_source2]
              [[ex_master, ex_source]] ! Suc 0)
     = [''data'', ''MobileBackup'', ''2020'', ''01'', ''vacation_1730000000.jpg''] \<and>
   target_path (make_plan ex_cfg ex_world (\<lambda>k. 1730000000) [ex_master] [ex_source, ex_source2]
              [[ex_master, ex_source]] ! Suc 0) \<noteq> ex_master"
proof -
  have h: "Suc 0 < length (make_plan ex_cfg ex_world (\<lambda>k. 1730000000) [ex_master] [ex_source, ex_source2]
              [[ex_master, ex_source]])"
    by code_simp
  have ev: "src (make_plan ex_cfg ex_world (\<lambda>k. 1730000000) [ex_master] [ex_source, ex_source2]
              [[ex_master, ex_source]] ! Suc 0) = ex_source2"
     "path_exists ex_world ex_master" "\<not> filecmp ex_world ex_source2 ex_master"
     "MASTER ex_cfg @ exif_yyyy_mm ex_world ex_source2 @ [name_of ex_source2] = ex_master"
     "MASTER ex_cfg @ exif_yyyy_mm ex_world ex_source2 = [''data'', ''MobileBackup'', ''2020'', ''01'']"
     "stem_of ex_master @ ''_'' @ digits 1730000000 @ suffix_of ex_master = ''vacation_1730000000.jpg''"
    by code_simp+
  let ?r = "make_plan ex_cfg ex_world (\<lambda>k. 1730000000) [ex_master] [ex_source, ex_source2]
              [[ex_master, ex_source]] ! Suc 0"
  have C: "[''data'', ''MobileBackup'', ''2020'', ''01'', ''vacation_1730000000.jpg''] \<noteq> ex_master"
    by code_simp
  have A: "target_dir ?r = [''data'', ''MobileBackup'', ''2020'', ''01''] \<and>
           (if path_exists ex_world ex_master \<and> \<not> filecmp ex_world ex_source2 ex_master
            then target_path ?r = target_dir ?r @ [''vacation_1730000000.jpg''] \<and> target_path ?r \<noteq> ex_master
            else target_path ?r = ex_master)"
    using target_path_avoids_occupied_nominal [OF h] C unfolding Let_def ev by simp
  have B: "target_path ?r = [''data'', ''MobileBackup'', ''2020'', ''01'', ''vacation_1730000000.jpg'']"
          "target_path ?r \<noteq> ex_master"
    using A C ev(2,3) by simp_all
  show ?thesis
    using h ev(1,2,3) B by blast
qed

section \<open>Tallies and the dry run\<close>

lemma do_mkdir_Inr:
  assumes "do_mkdir d st = Inr st'"
  shows "files (fs st') = files (fs st)" "dirs (fs st') = dirs (fs st) \<union> set (prefixes d)"
        "trace st' = trace st @ [Mkdir d]"
        "moved st' = moved st" "replaced st' = replaced st" "kept st' = kept st"
  using assms by (auto simp: do_mkdir_def mkdir_p_def split: sum.splits if_splits)

lemma do_mkdir_Inl: "do_mkdir d st = Inl (e, st') \<Longrightarrow> st' = st"
  by (auto simp: do_mkdir_def split: sum.splits)

lemma do_move_Inr:
  assumes "do_move a b st = Inr st'"
  shows "\<exists>c r. files (fs st) a = Some c \<and> (r = b \<or> r = b @ [name_of a])
               \<and> files (fs st') = ((files (fs st))(a := None))(r \<mapsto> c)"
        "a \<notin> dirs (fs st)" "dirs (fs st') = dirs (fs st)"
        "trace st' = trace st @ [Move a b]"
        "moved st' = moved st" "replaced st' = replaced st" "kept st' = kept st"
  using assms
  by (auto simp: do_move_def move_def rename_def Let_def split: sum.splits if_splits option.splits)

lemma do_move_Inl: "do_move a b st = Inl (e, st') \<Longrightarrow> st' = st"
  by (auto simp: do_move_def split: sum.splits)

lemma and_then_Inr: "and_then r k = Inr st' \<longleftrightarrow> (\<exists>st1. r = Inr st1 \<and> k st1 = Inr st')"
  by (cases r) (simp_all add: and_then_def)

lemma and_then_Inl: "and_then r k = Inl e \<longleftrightarrow> r = Inl e \<or> (\<exists>st1. r = Inr st1 \<and> k st1 = Inl e)"
  by (cases r) (simp_all add: and_then_def)

lemma move_if_exists_tally:
  "move_if_exists a b st = Inr st' \<Longrightarrow>
     moved st' = moved st \<and> replaced st' = replaced st \<and> kept st' = kept st"
  by (auto simp: move_if_exists_def do_move_Inr split: if_splits)

lemma quarantine_master_tally:
  "quarantine_master cfg m q st = Inr st' \<Longrightarrow>
     moved st' = moved st \<and> replaced st' = replaced st \<and> kept st' = kept st"
  by (auto simp: quarantine_master_def and_then_Inr do_move_Inr do_mkdir_Inr split: option.splits if_splits)

lemma apply_entry_tally:
  assumes "apply_entry cfg r st = Inr st'"
  shows "moved st' = moved st + (if is_move r then 1 else 0)
       \<and> replaced st' = replaced st + (if is_replace r then 1 else 0)
       \<and> kept st' = kept st + (if is_keep r then 1 else 0)"
proof (cases "action r = ''KEEP_MASTER''")
  case True
  with assms show ?thesis by (auto simp: apply_entry_def is_move_def is_replace_def is_keep_def)
next
  case nk: False
  from assms nk obtain st1 where m: "do_mkdir (target_dir r) st = Inr st1"
    and rest: "(if action r = ''MOVE_SOURCE''
        then and_then (if \<not> DRY_RUN cfg then move_if_exists (src r) (target_path r) st1 else Inr st1)
               (\<lambda>st2. Inr (st2\<lparr>moved := moved st2 + 1\<rparr>))
        else case master r of
          Some m \<Rightarrow>
            if action r = ''REPLACE_MASTER_WITH_SOURCE''
            then and_then
                   (if \<not> DRY_RUN cfg
                    then and_then (quarantine_master cfg m (quarantine_path r) st1)
                           (move_if_exists (src r) (target_path r))
                    else Inr st1)
                   (\<lambda>st2. Inr (st2\<lparr>replaced := replaced st2 + 1\<rparr>))
            else Inr st1
        | None \<Rightarrow> Inr st1) = Inr st'"
    by (auto simp: apply_entry_def and_then_Inr)
  note t1 = do_mkdir_Inr(4-6) [OF m]
  show ?thesis
  proof (cases "action r = ''MOVE_SOURCE''")
    case True
    with rest t1 nk show ?thesis
      by (auto simp: and_then_Inr is_move_def is_replace_def is_keep_def
               dest!: move_if_exists_tally split: if_splits)
  next
    case nm: False
    show ?thesis
    proof (cases "master r")
      case None
      with rest nm nk t1 show ?thesis by (auto simp: is_move_def is_replace_def is_keep_def)
    next
      case (Some m)
      with rest nm nk t1 show ?thesis
        by (auto simp: and_then_Inr is_move_def is_replace_def is_keep_def
                 dest!: move_if_exists_tally quarantine_master_tally split: if_splits)
    qed
  qed
qed

lemma apply_rows_tally:
  "apply_rows cfg rows st = Inr st' \<Longrightarrow>
     moved st' = moved st + length (filter is_move rows)
   \<and> replaced st' = replaced st + length (filter is_replace rows)
   \<and> kept st' = kept st + length (filter is_keep rows)"
proof (induction rows arbitrary: st)
  case Nil then show ?case by simp
next
  case (Cons r rs)
  then obtain st1 where a: "apply_entry cfg r st = Inr st1" and b: "apply_rows cfg rs st1 = Inr st'"
    by (auto simp: and_then_Inr)
  from apply_entry_tally [OF a] Cons.IH [OF b] show ?case by simp
qed

lemma do_apply_Done:
  "fst (do_apply cfg f (Some rows)) = Done msg \<longleftrightarrow>
     (\<exists>st. apply_rows cfg rows (start_state f) = Inr st \<and> msg = summary st)"
  by (auto simp: do_apply_def split: sum.splits prod.splits)

lemma do_apply_Inr:
  "apply_rows cfg rows (start_state f) = Inr st \<Longrightarrow> do_apply cfg f (Some rows) = (Done (summary st), st)"
  by (simp add: do_apply_def)

text \<open>
  C10. When apply runs to its summary line, the three tallies are the numbers of
  \<^verbatim>\<open>MOVE_SOURCE\<close> rows, of \<^verbatim>\<open>REPLACE_MASTER_WITH_SOURCE\<close> rows with a master, and of
  \<^verbatim>\<open>KEEP_MASTER\<close> rows of the plan, whatever the dry-run flag and whatever files exist.
\<close>

theorem tallies_count_entries:
  assumes "fst (do_apply cfg f (Some rows)) = Done msg"
  shows "moved (snd (do_apply cfg f (Some rows)))
           = length (filter (\<lambda>r. action r = ''MOVE_SOURCE'') rows)
       \<and> replaced (snd (do_apply cfg f (Some rows)))
           = length (filter (\<lambda>r. action r = ''REPLACE_MASTER_WITH_SOURCE'' \<and> master r \<noteq> None) rows)
       \<and> kept (snd (do_apply cfg f (Some rows)))
           = length (filter (\<lambda>r. action r = ''KEEP_MASTER'') rows)
       \<and> msg = summary (snd (do_apply cfg f (Some rows)))"
proof -
  from assms obtain st where st: "apply_rows cfg rows (start_state f) = Inr st" "msg = summary st"
    by (auto simp: do_apply_Done)
  from apply_rows_tally [OF st(1)] st(2) do_apply_Inr [OF st(1)]
  show ?thesis
    by (simp add: start_state_def is_move_def [abs_def] is_replace_def [abs_def] is_keep_def [abs_def])
qed

theorem tallies_count_entries_witness:
  "fst (do_apply ex_live empty_fs (Some ex_plan)) = Done ''APPLY done. moved=1, replaced=1, kept=0'' \<and>
   map action ex_plan = [''REPLACE_MASTER_WITH_SOURCE'', ''MOVE_SOURCE''] \<and>
   moved (snd (do_apply ex_live empty_fs (Some ex_plan))) = 1 \<and>
   replaced (snd (do_apply ex_live empty_fs (Some ex_plan))) = 1 \<and>
   kept (snd (do_apply ex_live empty_fs (Some ex_plan))) = 0 \<and>
   trace (snd (do_apply ex_live empty_fs (Some ex_plan)))
     = [Mkdir [''data'', ''MobileBackup'', ''2020'', ''01''],
        Mkdir [''data'', ''MobileBackup'', ''2020'', ''01'']]"
proof -
  have h: "fst (do_apply ex_live empty_fs (Some ex_plan)) = Done ''APPLY done. moved=1, replaced=1, kept=0''"
    by code_simp
  have ev: "map action ex_plan = [''REPLACE_MASTER_WITH_SOURCE'', ''MOVE_SOURCE'']"
    "length (filter (\<lambda>r. action r = ''MOVE_SOURCE'') ex_plan) = 1"
    "length (filter (\<lambda>r. action r = ''REPLACE_MASTER_WITH_SOURCE'' \<and> master r \<noteq> None) ex_plan) = 1"
    "length (filter (\<lambda>r. action r = ''KEEP_MASTER'') ex_plan) = 0"
    "trace (snd (do_apply ex_live empty_fs (Some ex_plan)))
     = [Mkdir [''data'', ''MobileBackup'', ''2020'', ''01''],
        Mkdir [''data'', ''MobileBackup'', ''2020'', ''01'']]"
    by code_simp+
  show ?thesis
    using tallies_count_entries [OF h] h ev by simp
qed

lemma dry_entry:
  assumes "DRY_RUN cfg"
  shows "apply_entry cfg r st =
     (if action r = ''KEEP_MASTER'' then Inr (st\<lparr>kept := kept st + 1\<rparr>)
      else case mkdir_p (fs st) (target_dir r) of
        Inl e \<Rightarrow> Inl (e, st)
      | Inr f \<Rightarrow> Inr (st\<lparr>fs := f, trace := trace st @ [Mkdir (target_dir r)],
                        moved := moved st + (if is_move r then 1 else 0),
                        replaced := replaced st + (if is_replace r then 1 else 0)\<rparr>))"
  using assms
  by (auto simp: apply_entry_def and_then_def do_mkdir_def is_move_def is_replace_def
           split: sum.splits option.splits)

lemma mkdir_p_Inr: "mkdir_p f d = Inr f' \<Longrightarrow> files f' = files f \<and> dirs f' = dirs f \<union> set (prefixes d)"
  by (auto simp: mkdir_p_def split: if_splits)

lemma mkdir_p_ok:
  "\<forall>q \<in> set (prefixes d). files f q = None \<or> q \<in> dirs f \<Longrightarrow>
     mkdir_p f d = Inr (f\<lparr>dirs := dirs f \<union> set (prefixes d)\<rparr>)"
  by (auto simp: mkdir_p_def)

lemma only_mkdirs_refl: "only_mkdirs st st"
  by (auto simp: only_mkdirs_def intro: exI [of _ "[]"])

lemma only_mkdirs_trans:
  assumes "only_mkdirs a b" "only_mkdirs b c"
  shows "only_mkdirs a c"
proof -
  from assms obtain ds es where "trace b = trace a @ map Mkdir ds" "trace c = trace b @ map Mkdir es"
    by (auto simp: only_mkdirs_def)
  then have "trace c = trace a @ map Mkdir (ds @ es)" by simp
  then have "\<exists>xs. trace c = trace a @ map Mkdir xs" by blast
  with assms show ?thesis by (auto simp: only_mkdirs_def)
qed

lemma snd_do_apply:
  "snd (do_apply cfg f (Some rows)) = final_state (apply_rows cfg rows (start_state f))"
  by (simp add: do_apply_def final_state_def split: sum.splits prod.splits)

lemma dry_entry_step:
  assumes "DRY_RUN cfg"
  shows "only_mkdirs st (final_state (apply_entry cfg r st))"
proof (cases "action r = ''KEEP_MASTER''")
  case True
  then show ?thesis
    by (auto simp: dry_entry [OF assms] final_state_def only_mkdirs_def intro: exI [of _ "[]"])
next
  case False
  show ?thesis
  proof (cases "mkdir_p (fs st) (target_dir r)")
    case (Inl e)
    with False show ?thesis
      by (simp add: dry_entry [OF assms] final_state_def only_mkdirs_refl)
  next
    case (Inr f)
    from mkdir_p_Inr [OF Inr] False Inr show ?thesis
      by (auto simp: dry_entry [OF assms] final_state_def only_mkdirs_def
               intro: exI [of _ "[target_dir r]"])
  qed
qed

lemma dry_rows_frame:
  assumes "DRY_RUN cfg"
  shows "only_mkdirs st (final_state (apply_rows cfg rows st))"
proof (induction rows arbitrary: st)
  case Nil
  then show ?case by (simp add: final_state_def only_mkdirs_refl)
next
  case (Cons r rs)
  show ?case
  proof (cases "apply_entry cfg r st")
    case (Inl x)
    with dry_entry_step [OF assms, of st r] show ?thesis
      by (simp add: and_then_def)
  next
    case (Inr st1)
    with dry_entry_step [OF assms, of st r] have "only_mkdirs st st1"
      by (simp add: final_state_def)
    from only_mkdirs_trans [OF this Cons.IH [of st1]] Inr show ?thesis
      by (simp add: and_then_def)
  qed
qed

lemma dry_rows_complete:
  assumes "DRY_RUN cfg"
    and "\<forall>r \<in> set rows. action r \<noteq> ''KEEP_MASTER'' \<longrightarrow>
           (\<forall>q \<in> set (prefixes (target_dir r)). files (fs st) q = None \<or> q \<in> dirs (fs st))"
  shows "\<exists>st'. apply_rows cfg rows st = Inr st'"
  using assms(2)
proof (induction rows arbitrary: st)
  case Nil
  then show ?case by simp
next
  case (Cons r rs)
  have "\<exists>st1. apply_entry cfg r st = Inr st1"
  proof (cases "action r = ''KEEP_MASTER''")
    case True then show ?thesis by (simp add: dry_entry [OF assms(1)])
  next
    case False
    with Cons.prems have "\<forall>q \<in> set (prefixes (target_dir r)). files (fs st) q = None \<or> q \<in> dirs (fs st)"
      by simp
    from mkdir_p_ok [OF this] False show ?thesis by (simp add: dry_entry [OF assms(1)])
  qed
  then obtain st1 where e: "apply_entry cfg r st = Inr st1" by blast
  with dry_entry_step [OF assms(1), of st r] have f: "files (fs st1) = files (fs st)" "dirs (fs st) \<subseteq> dirs (fs st1)"
    by (auto simp: final_state_def only_mkdirs_def)
  have "\<forall>r \<in> set rs. action r \<noteq> ''KEEP_MASTER'' \<longrightarrow>
           (\<forall>q \<in> set (prefixes (target_dir r)). files (fs st1) q = None \<or> q \<in> dirs (fs st1))"
    using Cons.prems f(2) unfolding f(1) by (meson list.set_intros(2) subsetD)
  from Cons.IH [OF this] e show ?case by (simp add: and_then_def)
qed

lemma dry_rows_trace:
  assumes "DRY_RUN cfg"
  shows "\<exists>ds. prefix ds (mkdir_targets rows)
            \<and> trace (final_state (apply_rows cfg rows st)) = trace st @ map Mkdir ds
            \<and> dirs (fs (final_state (apply_rows cfg rows st)))
                = dirs (fs st) \<union> (\<Union>d \<in> set ds. set (prefixes d))
            \<and> ((\<exists>st'. apply_rows cfg rows st = Inr st') \<longrightarrow> ds = mkdir_targets rows)
            \<and> (\<forall>e st'. apply_rows cfg rows st = Inl (e, st') \<longrightarrow>
                  length ds < length (mkdir_targets rows)
                  \<and> mkdir_p (fs st') (mkdir_targets rows ! length ds) = Inl e)"
proof (induction rows arbitrary: st)
  case Nil
  show ?case by (simp add: final_state_def mkdir_targets_def)
next
  case (Cons r rs)
  show ?case
  proof (cases "action r = ''KEEP_MASTER''")
    case True
    let ?st1 = "st\<lparr>kept := kept st + 1\<rparr>"
    have e: "apply_entry cfg r st = Inr ?st1" using True by (simp add: dry_entry [OF assms])
    have t: "mkdir_targets (r # rs) = mkdir_targets rs" using True by (simp add: mkdir_targets_def)
    have a: "apply_rows cfg (r # rs) st = apply_rows cfg rs ?st1" using e by (simp add: and_then_def)
    from Cons.IH [of ?st1] show ?thesis unfolding a t by simp
  next
    case nk: False
    have t: "mkdir_targets (r # rs) = target_dir r # mkdir_targets rs"
      using nk by (simp add: mkdir_targets_def)
    show ?thesis
    proof (cases "mkdir_p (fs st) (target_dir r)")
      case (Inl e)
      then have "apply_entry cfg r st = Inl (e, st)" using nk by (simp add: dry_entry [OF assms])
      then have a: "apply_rows cfg (r # rs) st = Inl (e, st)" by (simp add: and_then_def)
      show ?thesis unfolding a t
        by (rule exI [of _ "[]"]) (simp add: final_state_def Inl)
    next
      case (Inr f1)
      let ?st1 = "st\<lparr>fs := f1, trace := trace st @ [Mkdir (target_dir r)],
                        moved := moved st + (if is_move r then 1 else 0),
                        replaced := replaced st + (if is_replace r then 1 else 0)\<rparr>"
      have e: "apply_entry cfg r st = Inr ?st1" using Inr nk by (simp add: dry_entry [OF assms])
      have a: "apply_rows cfg (r # rs) st = apply_rows cfg rs ?st1" using e by (simp add: and_then_def)
      from mkdir_p_Inr [OF Inr] have d1: "dirs f1 = dirs (fs st) \<union> set (prefixes (target_dir r))"
        by simp
      from Cons.IH [of ?st1] obtain ds where ds:
        "prefix ds (mkdir_targets rs)"
        "trace (final_state (apply_rows cfg rs ?st1)) = trace ?st1 @ map Mkdir ds"
        "dirs (fs (final_state (apply_rows cfg rs ?st1))) = dirs (fs ?st1) \<union> (\<Union>d \<in> set ds. set (prefixes d))"
        "(\<exists>st'. apply_rows cfg rs ?st1 = Inr st') \<longrightarrow> ds = mkdir_targets rs"
        "\<forall>e st'. apply_rows cfg rs ?st1 = Inl (e, st') \<longrightarrow>
           length ds < length (mkdir_targets rs) \<and> mkdir_p (fs st') (mkdir_targets rs ! length ds) = Inl e"
        by blast
      show ?thesis unfolding a t
      proof (intro exI [of _ "target_dir r # ds"] conjI)
        show "prefix (target_dir r # ds) (target_dir r # mkdir_targets rs)" using ds(1) by simp
        show "trace (final_state (apply_rows cfg rs ?st1)) = trace st @ map Mkdir (target_dir r # ds)"
          using ds(2) by simp
        show "dirs (fs (final_state (apply_rows cfg rs ?st1)))
                = dirs (fs st) \<union> (\<Union>d \<in> set (target_dir r # ds). set (prefixes d))"
          using ds(3) d1 by auto
        show "(\<exists>st'. apply_rows cfg rs ?st1 = Inr st') \<longrightarrow> target_dir r # ds = target_dir r # mkdir_targets rs"
          using ds(4) by simp
        show "\<forall>e st'. apply_rows cfg rs ?st1 = Inl (e, st') \<longrightarrow>
                length (target_dir r # ds) < length (target_dir r # mkdir_targets rs)
                \<and> mkdir_p (fs st') ((target_dir r # mkdir_targets rs) ! length (target_dir r # ds)) = Inl e"
          using ds(5) by simp
      qed
    qed
  qed
qed

lemma dry_rows_files:
  assumes "DRY_RUN cfg"
  shows "files (fs (final_state (apply_rows cfg rows st))) = files (fs st)"
  using dry_rows_frame [OF assms, of st rows] by (simp add: only_mkdirs_def)

text \<open>
  C3, amended. In dry-run mode apply moves no file: the regular files and their contents
  are as before. The file-system calls it makes are exactly the \<^verbatim>\<open>mkdir\<close>s of the target
  directories of the rows that are not \<^verbatim>\<open>KEEP_MASTER\<close> rows, in plan order, up to the first
  one that raises; the directories afterwards are those before and the directories asked
  for, with their parents. A run that ends with its summary line has made all these
  calls; a run that ends with an exception has stopped before the first call that fails,
  with the exception of that call. When no such target directory, and no parent of one,
  is an existing regular file, the run reaches its summary line and has tallied every
  row of the three kinds.
\<close>

theorem dry_run_moves_no_file:
  assumes "DRY_RUN cfg"
  shows "files (fs (snd (do_apply cfg f (Some rows)))) = files f
       \<and> (\<exists>ds. prefix ds (mkdir_targets rows)
              \<and> trace (snd (do_apply cfg f (Some rows))) = map Mkdir ds
              \<and> dirs (fs (snd (do_apply cfg f (Some rows))))
                  = dirs f \<union> (\<Union>d \<in> set ds. set (prefixes d))
              \<and> (\<forall>msg. fst (do_apply cfg f (Some rows)) = Done msg \<longrightarrow> ds = mkdir_targets rows)
              \<and> (\<forall>e. fst (do_apply cfg f (Some rows)) = Raised e \<longrightarrow>
                    length ds < length (mkdir_targets rows)
                    \<and> mkdir_p (fs (snd (do_apply cfg f (Some rows)))) (mkdir_targets rows ! length ds)
                        = Inl e))
       \<and> ((\<forall>r \<in> set rows. action r \<noteq> ''KEEP_MASTER'' \<longrightarrow>
              (\<forall>q \<in> set (prefixes (target_dir r)). files f q = None \<or> q \<in> dirs f))
           \<longrightarrow> fst (do_apply cfg f (Some rows)) = Done (summary (snd (do_apply cfg f (Some rows))))
             \<and> trace (snd (do_apply cfg f (Some rows))) = map Mkdir (mkdir_targets rows)
             \<and> dirs (fs (snd (do_apply cfg f (Some rows))))
                 = dirs f \<union> (\<Union>d \<in> set (mkdir_targets rows). set (prefixes d))
             \<and> moved (snd (do_apply cfg f (Some rows)))
                 = length (filter (\<lambda>r. action r = ''MOVE_SOURCE'') rows)
             \<and> replaced (snd (do_apply cfg f (Some rows)))
                 = length (filter (\<lambda>r. action r = ''REPLACE_MASTER_WITH_SOURCE'' \<and> master r \<noteq> None) rows)
             \<and> kept (snd (do_apply cfg f (Some rows)))
                 = length (filter (\<lambda>r. action r = ''KEEP_MASTER'') rows))"
proof -
  let ?st = "snd (do_apply cfg f (Some rows))"
  from dry_rows_trace [OF assms, of rows "start_state f"] obtain ds where ds:
    "prefix ds (mkdir_targets rows)"
    "trace ?st = map Mkdir ds"
    "dirs (fs ?st) = dirs f \<union> (\<Union>d \<in> set ds. set (prefixes d))"
    "(\<exists>st'. apply_rows cfg rows (start_state f) = Inr st') \<longrightarrow> ds = mkdir_targets rows"
    "\<forall>e st'. apply_rows cfg rows (start_state f) = Inl (e, st') \<longrightarrow>
       length ds < length (mkdir_targets rows) \<and> mkdir_p (fs st') (mkdir_targets rows ! length ds) = Inl e"
    unfolding snd_do_apply by (auto simp: start_state_def)
  have D: "ds = mkdir_targets rows" if "fst (do_apply cfg f (Some rows)) = Done msg" for msg
    using that ds(4) by (auto simp: do_apply_Done)
  have E: "length ds < length (mkdir_targets rows)
           \<and> mkdir_p (fs ?st) (mkdir_targets rows ! length ds) = Inl e"
    if "fst (do_apply cfg f (Some rows)) = Raised e" for e
  proof -
    from that obtain st' where r: "apply_rows cfg rows (start_state f) = Inl (e, st')"
      by (auto simp: do_apply_def split: sum.splits prod.splits)
    then have "?st = st'" by (simp add: do_apply_def)
    with ds(5) r show ?thesis by simp
  qed
  have A: "files (fs ?st) = files f"
    unfolding snd_do_apply using dry_rows_files [OF assms, of rows "start_state f"]
    by (simp add: start_state_def)
  have B: "\<exists>ds. prefix ds (mkdir_targets rows) \<and> trace ?st = map Mkdir ds
              \<and> dirs (fs ?st) = dirs f \<union> (\<Union>d \<in> set ds. set (prefixes d))
              \<and> (\<forall>msg. fst (do_apply cfg f (Some rows)) = Done msg \<longrightarrow> ds = mkdir_targets rows)
              \<and> (\<forall>e. fst (do_apply cfg f (Some rows)) = Raised e \<longrightarrow>
                    length ds < length (mkdir_targets rows)
                    \<and> mkdir_p (fs ?st) (mkdir_targets rows ! length ds) = Inl e)"
    using ds(1,2,3) D E by blast
  have C: "fst (do_apply cfg f (Some rows)) = Done (summary ?st)
             \<and> trace ?st = map Mkdir (mkdir_targets rows)
             \<and> dirs (fs ?st) = dirs f \<union> (\<Union>d \<in> set (mkdir_targets rows). set (prefixes d))
             \<and> moved ?st = length (filter (\<lambda>r. action r = ''MOVE_SOURCE'') rows)
             \<and> replaced ?st
                 = length (filter (\<lambda>r. action r = ''REPLACE_MASTER_WITH_SOURCE'' \<and> master r \<noteq> None) rows)
             \<and> kept ?st = length (filter (\<lambda>r. action r = ''KEEP_MASTER'') rows)"
    if ok: "\<forall>r \<in> set rows. action r \<noteq> ''KEEP_MASTER'' \<longrightarrow>
              (\<forall>q \<in> set (prefixes (target_dir r)). files f q = None \<or> q \<in> dirs f)"
  proof -
    from ok have "\<forall>r \<in> set rows. action r \<noteq> ''KEEP_MASTER'' \<longrightarrow>
        (\<forall>q \<in> set (prefixes (target_dir r)). files (fs (start_state f)) q = None \<or> q \<in> dirs (fs (start_state f)))"
      by (simp add: start_state_def)
    from dry_rows_complete [OF assms this] obtain st where
      st: "apply_rows cfg rows (start_state f) = Inr st" by blast
    with ds(4) have all: "ds = mkdir_targets rows" by blast
    have s: "?st = st" using do_apply_Inr [OF st] by simp
    from apply_rows_tally [OF st] do_apply_Inr [OF st] ds(2,3) show ?thesis
      unfolding all s
      by (simp add: start_state_def is_move_def [abs_def] is_replace_def [abs_def] is_keep_def [abs_def])
  qed
  from A B C show ?thesis by blast
qed

text \<open>
  C3, as stated, fails: a dry run over a plan of one \<^verbatim>\<open>MOVE_SOURCE\<close> row reports
  \<^verbatim>\<open>moved=1\<close> and has created the target directory, which did not exist before.
\<close>

theorem dry_run_creates_directories:
  "DRY_RUN ex_cfg \<and> map action cx_plan = [''MOVE_SOURCE''] \<and> map src cx_plan = [cx_a] \<and>
   fst (do_apply ex_cfg cx_fs (Some cx_plan)) = Done ''APPLY done. moved=1, replaced=0, kept=0'' \<and>
   [''data'', ''MobileBackup'', ''2021'', ''05''] \<notin> dirs cx_fs \<and>
   [''data'', ''MobileBackup'', ''2021'', ''05''] \<in> dirs (fs (snd (do_apply ex_cfg cx_fs (Some cx_plan)))) \<and>
   trace (snd (do_apply ex_cfg cx_fs (Some cx_plan))) = [Mkdir [''data'', ''MobileBackup'', ''2021'', ''05'']]"
  by code_simp

theorem dry_run_moves_no_file_witness:
  "DRY_RUN ex_cfg \<and>
   map action cx_plan = [''MOVE_SOURCE''] \<and>
   mkdir_targets cx_plan = [[''data'', ''MobileBackup'', ''2021'', ''05'']] \<and>
   files (fs (snd (do_apply ex_cfg cx_fs (Some cx_plan)))) = files cx_fs \<and>
   files (fs (snd (do_apply ex_cfg cx_fs (Some cx_plan)))) cx_a = Some ''A'' \<and>
   fst (do_apply ex_cfg cx_fs (Some cx_plan)) = Done ''APPLY done. moved=1, replaced=0, kept=0'' \<and>
   trace (snd (do_apply ex_cfg cx_fs (Some cx_plan)))
     = [Mkdir [''data'', ''MobileBackup'', ''2021'', ''05'']] \<and>
   dirs (fs (snd (do_apply ex_cfg cx_fs (Some cx_plan))))
     = dirs cx_fs \<union> set (prefixes [''data'', ''MobileBackup'', ''2021'', ''05'']) \<and>
   moved (snd (do_apply ex_cfg cx_fs (Some cx_plan))) = 1 \<and>
   fst (do_apply ex_cfg blocked_fs (Some cx_plan)) = Raised NotADirectoryError \<and>
   files (fs (snd (do_apply ex_cfg blocked_fs (Some cx_plan)))) = files blocked_fs \<and>
   trace (snd (do_apply ex_cfg blocked_fs (Some cx_plan))) = [] \<and>
   dirs (fs (snd (do_apply ex_cfg blocked_fs (Some cx_plan)))) = dirs blocked_fs \<and>
   mkdir_p (fs (snd (do_apply ex_cfg blocked_fs (Some cx_plan))))
     [''data'', ''MobileBackup'', ''2021'', ''05''] = Inl NotADirectoryError"
proof -
  have h: "DRY_RUN ex_cfg" by code_simp
  have ok: "\<forall>r \<in> set cx_plan. action r \<noteq> ''KEEP_MASTER'' \<longrightarrow>
              (\<forall>q \<in> set (prefixes (target_dir r)). files cx_fs q = None \<or> q \<in> dirs cx_fs)"
    by code_simp
  have ev: "length (filter (\<lambda>r. action r = ''MOVE_SOURCE'') cx_plan) = 1"
    "files cx_fs cx_a = Some ''A''"
    "fst (do_apply ex_cfg cx_fs (Some cx_plan)) = Done ''APPLY done. moved=1, replaced=0, kept=0''"
    "map action cx_plan = [''MOVE_SOURCE'']"
    "mkdir_targets cx_plan = [[''data'', ''MobileBackup'', ''2021'', ''05'']]"
    "fst (do_apply ex_cfg blocked_fs (Some cx_plan)) = Raised NotADirectoryError"
    by code_simp+
  note good = dry_run_moves_no_file [OF h, of cx_fs cx_plan]
  note bad = dry_run_moves_no_file [OF h, of blocked_fs cx_plan]
  from bad obtain ds where ds: "prefix ds (mkdir_targets cx_plan)"
    "trace (snd (do_apply ex_cfg blocked_fs (Some cx_plan))) = map Mkdir ds"
    "dirs (fs (snd (do_apply ex_cfg blocked_fs (Some cx_plan))))
       = dirs blocked_fs \<union> (\<Union>d \<in> set ds. set (prefixes d))"
    "length ds < length (mkdir_targets cx_plan)"
    "mkdir_p (fs (snd (do_apply ex_cfg blocked_fs (Some cx_plan)))) (mkdir_targets cx_plan ! length ds)
       = Inl NotADirectoryError"
    using ev(6) by auto
  from ds(4) have e: "ds = []" by (simp add: ev(5))
  have badfacts: "trace (snd (do_apply ex_cfg blocked_fs (Some cx_plan))) = []"
    "dirs (fs (snd (do_apply ex_cfg blocked_fs (Some cx_plan)))) = dirs blocked_fs"
    "mkdir_p (fs (snd (do_apply ex_cfg blocked_fs (Some cx_plan))))
       [''data'', ''MobileBackup'', ''2021'', ''05''] = Inl NotADirectoryError"
    using ds(2,3,5) unfolding e by (simp_all add: ev(5))
  show ?thesis
    using good bad h ok ev badfacts by simp
qed

section \<open>Quarantine before replacement\<close>

lemma do_mkdir_exists_mono:
  "do_mkdir d st = Inr st' \<Longrightarrow> fs_exists (fs st) p \<Longrightarrow> fs_exists (fs st') p"
  by (auto simp: fs_exists_def dest: do_mkdir_Inr(1,2))

lemma do_mkdir_cases:
  obtains (fail) e where "do_mkdir d st = Inl (e, st)"
        | (ok) st' where "do_mkdir d st = Inr st'" "trace st' = trace st @ [Mkdir d]"
proof (cases "do_mkdir d st")
  case (Inl x)
  then show ?thesis using fail do_mkdir_Inl [of d st "fst x" "snd x"] by (cases x) auto
next
  case (Inr st')
  then show ?thesis using ok do_mkdir_Inr(3) by blast
qed

lemma do_move_cases:
  obtains (fail) e where "do_move a b st = Inl (e, st)"
        | (ok) st' where "do_move a b st = Inr st'" "trace st' = trace st @ [Move a b]"
proof (cases "do_move a b st")
  case (Inl x)
  then show ?thesis using fail do_move_Inl [of a b st "fst x" "snd x"] by (cases x) auto
next
  case (Inr st')
  then show ?thesis using ok do_move_Inr(4) by blast
qed

text \<open>
  C6. A live replace entry with a recorded quarantine path whose master still exists:
  whether the entry completes or a call raises, the calls made are a prefix of
  \<^verbatim>\<open>mkdir target_dir\<close>, \<^verbatim>\<open>mkdir QUAR\<close>, the move of the master to its quarantine path, the
  move of the source to the target path, in this order. The source is never moved before
  the master has been moved to quarantine.
\<close>

theorem replace_quarantines_before_moving_source:
  assumes live: "\<not> DRY_RUN cfg"
    and r: "action r = ''REPLACE_MASTER_WITH_SOURCE''" "master r = Some m" "quarantine_path r = Some q"
    and ex: "fs_exists (fs st) m"
  shows "case apply_entry cfg r st of
           Inr st' \<Rightarrow>
             trace st' = trace st @ [Mkdir (target_dir r), Mkdir (QUAR cfg), Move m q]
           \<or> trace st' = trace st @ [Mkdir (target_dir r), Mkdir (QUAR cfg), Move m q,
                                      Move (src r) (target_path r)]
         | Inl (e, st') \<Rightarrow>
             trace st' = trace st
           \<or> trace st' = trace st @ [Mkdir (target_dir r)]
           \<or> trace st' = trace st @ [Mkdir (target_dir r), Mkdir (QUAR cfg)]
           \<or> trace st' = trace st @ [Mkdir (target_dir r), Mkdir (QUAR cfg), Move m q]"
proof -
  have nk: "action r \<noteq> ''KEEP_MASTER''" "action r \<noteq> ''MOVE_SOURCE''" using r(1) by simp_all
  have unfold: "apply_entry cfg r st =
      and_then (do_mkdir (target_dir r) st) (\<lambda>st1.
        and_then (and_then (quarantine_master cfg m (Some q) st1) (move_if_exists (src r) (target_path r)))
                 (\<lambda>st2. Inr (st2\<lparr>replaced := replaced st2 + 1\<rparr>)))"
    using live r nk by (simp add: apply_entry_def)
  show ?thesis
  proof (cases rule: do_mkdir_cases [of "target_dir r" st])
    case (fail e)
    then show ?thesis by (simp add: unfold and_then_def)
  next
    case (ok st1)
    have ex1: "fs_exists (fs st1) m" using do_mkdir_exists_mono [OF ok(1) ex] .
    have qm: "quarantine_master cfg m (Some q) st1 = and_then (do_mkdir (QUAR cfg) st1) (do_move m q)"
      using ex1 by (simp add: quarantine_master_def)
    show ?thesis
    proof (cases rule: do_mkdir_cases [of "QUAR cfg" st1])
      case (fail e)
      then show ?thesis using ok by (simp add: unfold qm and_then_def)
    next
      case ok2: (ok st2)
      show ?thesis
      proof (cases rule: do_move_cases [of m q st2])
        case (fail e)
        then show ?thesis using ok ok2 by (simp add: unfold qm and_then_def)
      next
        case ok3: (ok st3)
        show ?thesis
        proof (cases "fs_exists (fs st3) (src r)")
          case False
          then show ?thesis using ok ok2 ok3
            by (simp add: unfold qm and_then_def move_if_exists_def)
        next
          case True
          show ?thesis
          proof (cases rule: do_move_cases [of "src r" "target_path r" st3])
            case (fail e)
            then show ?thesis using True ok ok2 ok3
              by (simp add: unfold qm and_then_def move_if_exists_def)
          next
            case ok4: (ok st4)
            then show ?thesis using True ok ok2 ok3
              by (simp add: unfold qm and_then_def move_if_exists_def)
          qed
        qed
      qed
    qed
  qed
qed

theorem replace_quarantines_before_moving_source_witness:
  "\<not> DRY_RUN ex_live \<and>
   action (hd ex_plan) = ''REPLACE_MASTER_WITH_SOURCE'' \<and> master (hd ex_plan) = Some ex_master \<and>
   quarantine_path (hd ex_plan) = Some [''quarantine'', ''vacation.jpg''] \<and>
   fs_exists (fs (start_state ex_fs)) ex_master \<and>
   trace (final_state (apply_entry ex_live (hd ex_plan) (start_state ex_fs)))
     = [Mkdir [''data'', ''MobileBackup'', ''2020'', ''01''], Mkdir [''quarantine''],
        Move ex_master [''quarantine'', ''vacation.jpg''],
        Move ex_source ex_master]"
proof -
  have h: "\<not> DRY_RUN ex_live" "action (hd ex_plan) = ''REPLACE_MASTER_WITH_SOURCE''"
    "master (hd ex_plan) = Some ex_master"
    "quarantine_path (hd ex_plan) = Some [''quarantine'', ''vacation.jpg'']"
    "fs_exists (fs (start_state ex_fs)) ex_master"
    by code_simp+
  have ev: "trace (final_state (apply_entry ex_live (hd ex_plan) (start_state ex_fs)))
     = [Mkdir [''data'', ''MobileBackup'', ''2020'', ''01''], Mkdir [''quarantine''],
        Move ex_master [''quarantine'', ''vacation.jpg''],
        Move ex_source ex_master]"
    by code_simp
  show ?thesis
    using replace_quarantines_before_moving_source [OF h] h ev by simp
qed

section \<open>Applying a plan twice\<close>

lemma do_mkdir_effect:
  assumes "do_mkdir d st = Inr st'"
  shows "dirs (fs st) \<subseteq> dirs (fs st')" "set (prefixes d) \<subseteq> dirs (fs st')"
    "fs_exists (fs st') p \<Longrightarrow> fs_exists (fs st) p \<or> p \<in> set (prefixes d)"
  using do_mkdir_Inr(1,2) [OF assms] by (auto simp: fs_exists_def)

lemma do_move_effect:
  assumes "do_move a b st = Inr st'"
  shows "dirs (fs st') = dirs (fs st)"
    "fs_exists (fs st') p \<Longrightarrow> fs_exists (fs st) p \<or> p = b \<or> p = b @ [name_of a]"
    "a \<noteq> b \<Longrightarrow> a \<noteq> b @ [name_of a] \<Longrightarrow> \<not> fs_exists (fs st') a"
proof -
  from do_move_Inr(1) [OF assms] obtain c r where
    cr: "files (fs st) a = Some c" "r = b \<or> r = b @ [name_of a]"
        "files (fs st') = ((files (fs st))(a := None))(r \<mapsto> c)" by blast
  note d = do_move_Inr(2,3) [OF assms]
  show "dirs (fs st') = dirs (fs st)" by (rule d(2))
  show "fs_exists (fs st') p \<Longrightarrow> fs_exists (fs st) p \<or> p = b \<or> p = b @ [name_of a]"
    using cr d by (auto simp: fs_exists_def split: if_splits)
  show "a \<noteq> b \<Longrightarrow> a \<noteq> b @ [name_of a] \<Longrightarrow> \<not> fs_exists (fs st') a"
    using cr d by (auto simp: fs_exists_def)
qed

lemma move_if_exists_effect:
  assumes "move_if_exists a b st = Inr st'"
  shows "dirs (fs st') = dirs (fs st)"
    "fs_exists (fs st') p \<Longrightarrow> fs_exists (fs st) p \<or> p = b \<or> p = b @ [name_of a]"
    "a \<noteq> b \<Longrightarrow> a \<noteq> b @ [name_of a] \<Longrightarrow> \<not> fs_exists (fs st') a"
proof -
  show "dirs (fs st') = dirs (fs st)"
    using assms by (auto simp: move_if_exists_def do_move_effect(1) split: if_splits)
  show "fs_exists (fs st') p \<Longrightarrow> fs_exists (fs st) p \<or> p = b \<or> p = b @ [name_of a]"
    using assms by (auto simp: move_if_exists_def split: if_splits dest: do_move_effect(2))
  show "a \<noteq> b \<Longrightarrow> a \<noteq> b @ [name_of a] \<Longrightarrow> \<not> fs_exists (fs st') a"
    using assms by (auto simp: move_if_exists_def split: if_splits dest: do_move_effect(3))
qed

lemma quarantine_effect:
  assumes "quarantine_master cfg m (Some q) st = Inr st'"
  shows "dirs (fs st) \<subseteq> dirs (fs st')"
    "fs_exists (fs st') p \<Longrightarrow>
       fs_exists (fs st) p \<or> p \<in> set (prefixes (QUAR cfg)) \<or> p = q \<or> p = q @ [name_of m]"
    "m \<noteq> q \<Longrightarrow> m \<noteq> q @ [name_of m] \<Longrightarrow> \<not> fs_exists (fs st') m"
proof -
  consider (absent) "\<not> fs_exists (fs st) m" "st' = st"
    | (present) st1 where "do_mkdir (QUAR cfg) st = Inr st1" "do_move m q st1 = Inr st'"
    using assms by (auto simp: quarantine_master_def and_then_Inr split: if_splits)
  note c = this
  show "dirs (fs st) \<subseteq> dirs (fs st')"
    using c by cases (auto dest: do_mkdir_effect(1) do_move_effect(1))
  show "fs_exists (fs st') p \<Longrightarrow>
       fs_exists (fs st) p \<or> p \<in> set (prefixes (QUAR cfg)) \<or> p = q \<or> p = q @ [name_of m]"
    using c
  proof cases
    case absent then show "fs_exists (fs st') p \<Longrightarrow> ?thesis" by simp
  next
    case (present st1)
    assume "fs_exists (fs st') p"
    from do_move_effect(2) [OF present(2) this] do_mkdir_effect(3) [OF present(1), of p]
    show ?thesis by blast
  qed
  show "m \<noteq> q \<Longrightarrow> m \<noteq> q @ [name_of m] \<Longrightarrow> \<not> fs_exists (fs st') m"
    using c by cases (auto dest: do_move_effect(3))
qed

lemma entry_effect_move:
  assumes live: "\<not> DRY_RUN cfg" and ok: "apply_entry cfg r st = Inr st'"
    and act: "action r = ''MOVE_SOURCE''"
  shows "dirs (fs st) \<subseteq> dirs (fs st')" "set (prefixes (target_dir r)) \<subseteq> dirs (fs st')"
    "\<And>p. fs_exists (fs st') p \<Longrightarrow> fs_exists (fs st) p \<or> p \<in> set (row_created cfg r)"
    "\<And>a. a \<in> set (row_origins r) \<Longrightarrow> a \<notin> set (row_created cfg r) \<Longrightarrow> \<not> fs_exists (fs st') a"
proof -
  from ok act live obtain st1 st2 where
    s1: "do_mkdir (target_dir r) st = Inr st1"
    and s2: "move_if_exists (src r) (target_path r) st1 = Inr st2"
    and s3: "st' = st2\<lparr>moved := moved st2 + 1\<rparr>"
    by (auto simp: apply_entry_def and_then_Inr)
  have f: "fs st' = fs st2" using s3 by simp
  have cr: "set (row_created cfg r) = set (prefixes (target_dir r))
              \<union> {target_path r, target_path r @ [name_of (src r)]}"
    using act by (auto simp: row_created_def)
  have og: "set (row_origins r) = {src r}" using act by (simp add: row_origins_def)
  show "dirs (fs st) \<subseteq> dirs (fs st')"
    using do_mkdir_effect(1) [OF s1] move_if_exists_effect(1) [OF s2] f by simp
  show "set (prefixes (target_dir r)) \<subseteq> dirs (fs st')"
    using do_mkdir_effect(2) [OF s1] move_if_exists_effect(1) [OF s2] f by simp
  show "fs_exists (fs st') p \<Longrightarrow> fs_exists (fs st) p \<or> p \<in> set (row_created cfg r)" for p
    using move_if_exists_effect(2) [OF s2, of p] do_mkdir_effect(3) [OF s1, of p] f cr by auto
  show "a \<in> set (row_origins r) \<Longrightarrow> a \<notin> set (row_created cfg r) \<Longrightarrow> \<not> fs_exists (fs st') a" for a
    using move_if_exists_effect(3) [OF s2] f cr og by auto
qed

lemma row_created_replace:
  assumes "action r = ''REPLACE_MASTER_WITH_SOURCE''" "master r = Some m"
  shows "set (row_created cfg r) = set (prefixes (target_dir r))
           \<union> {target_path r, target_path r @ [name_of (src r)]}
           \<union> (case quarantine_path r of None \<Rightarrow> {}
               | Some q \<Rightarrow> set (prefixes (QUAR cfg)) \<union> {q, q @ [name_of m]})"
proof -
  have nk: "action r \<noteq> ''KEEP_MASTER''" "action r \<noteq> ''MOVE_SOURCE''" using assms(1) by simp_all
  show ?thesis
    by (cases "quarantine_path r") (auto simp add: row_created_def nk assms)
qed

lemma row_origins_replace:
  assumes "action r = ''REPLACE_MASTER_WITH_SOURCE''" "master r = Some m"
  shows "set (row_origins r) = {src r} \<union> (case quarantine_path r of None \<Rightarrow> {} | Some q \<Rightarrow> {m})"
proof -
  have nk: "action r \<noteq> ''MOVE_SOURCE''" using assms(1) by simp
  show ?thesis
    by (cases "quarantine_path r") (auto simp add: row_origins_def nk assms)
qed

lemma quarantine_effect_any:
  assumes "quarantine_master cfg m qp st = Inr st'"
  shows "dirs (fs st) \<subseteq> dirs (fs st')"
    "fs_exists (fs st') p \<Longrightarrow>
       fs_exists (fs st) p
       \<or> p \<in> (case qp of None \<Rightarrow> {} | Some q \<Rightarrow> set (prefixes (QUAR cfg)) \<union> {q, q @ [name_of m]})"
    "\<And>q. qp = Some q \<Longrightarrow> m \<noteq> q \<Longrightarrow> m \<noteq> q @ [name_of m] \<Longrightarrow> \<not> fs_exists (fs st') m"
proof -
  show "dirs (fs st) \<subseteq> dirs (fs st')"
  proof (cases qp)
    case None with assms show ?thesis by (simp add: quarantine_master_def)
  next
    case (Some q) with assms show ?thesis using quarantine_effect(1) by simp
  qed
  show "fs_exists (fs st') p \<Longrightarrow>
       fs_exists (fs st) p
       \<or> p \<in> (case qp of None \<Rightarrow> {} | Some q \<Rightarrow> set (prefixes (QUAR cfg)) \<union> {q, q @ [name_of m]})"
  proof (cases qp)
    case None with assms show "fs_exists (fs st') p \<Longrightarrow> ?thesis" by (simp add: quarantine_master_def)
  next
    case (Some q)
    assume e: "fs_exists (fs st') p"
    from assms Some have "quarantine_master cfg m (Some q) st = Inr st'" by simp
    from quarantine_effect(2) [OF this e] Some show ?thesis by auto
  qed
  show "\<And>q. qp = Some q \<Longrightarrow> m \<noteq> q \<Longrightarrow> m \<noteq> q @ [name_of m] \<Longrightarrow> \<not> fs_exists (fs st') m"
    using assms quarantine_effect(3) by simp
qed

lemma entry_effect_replace:
  assumes live: "\<not> DRY_RUN cfg" and ok: "apply_entry cfg r st = Inr st'"
    and act: "action r = ''REPLACE_MASTER_WITH_SOURCE''" "master r = Some m"
  shows "dirs (fs st) \<subseteq> dirs (fs st')" "set (prefixes (target_dir r)) \<subseteq> dirs (fs st')"
    "\<And>p. fs_exists (fs st') p \<Longrightarrow> fs_exists (fs st) p \<or> p \<in> set (row_created cfg r)"
    "\<And>a. a \<in> set (row_origins r) \<Longrightarrow> a \<notin> set (row_created cfg r) \<Longrightarrow> \<not> fs_exists (fs st') a"
proof -
  have nk: "action r \<noteq> ''KEEP_MASTER''" "action r \<noteq> ''MOVE_SOURCE''" using act(1) by simp_all
  have unfold: "apply_entry cfg r st =
      and_then (do_mkdir (target_dir r) st) (\<lambda>st1.
        and_then (and_then (quarantine_master cfg m (quarantine_path r) st1)
                           (move_if_exists (src r) (target_path r)))
                 (\<lambda>st2. Inr (st2\<lparr>replaced := replaced st2 + 1\<rparr>)))"
    using live act nk by (simp add: apply_entry_def)
  from ok [unfolded unfold] obtain st1 st2 st3 where
    s1: "do_mkdir (target_dir r) st = Inr st1"
    and s2: "quarantine_master cfg m (quarantine_path r) st1 = Inr st2"
    and s3: "move_if_exists (src r) (target_path r) st2 = Inr st3"
    and s4: "st' = st3\<lparr>replaced := replaced st3 + 1\<rparr>"
    unfolding and_then_Inr by blast
  have f: "fs st' = fs st3" using s4 by simp
  note m1 = do_mkdir_effect [OF s1]
  note m2 = quarantine_effect_any [OF s2]
  note m3 = move_if_exists_effect [OF s3]
  note cr = row_created_replace [OF act, of cfg]
  note og = row_origins_replace [OF act]
  show "dirs (fs st) \<subseteq> dirs (fs st')"
    using m1(1) m2(1) m3(1) f by auto
  show "set (prefixes (target_dir r)) \<subseteq> dirs (fs st')"
    using m1(2) m2(1) m3(1) f by auto
  show "fs_exists (fs st') p \<Longrightarrow> fs_exists (fs st) p \<or> p \<in> set (row_created cfg r)" for p
  proof -
    assume "fs_exists (fs st') p"
    then have "fs_exists (fs st3) p" using f by simp
    from m3(2) [OF this] consider "fs_exists (fs st2) p"
      | "p \<in> {target_path r, target_path r @ [name_of (src r)]}" by auto
    then show ?thesis
    proof cases
      case 1
      from m2(2) [OF this] consider "fs_exists (fs st1) p"
        | "p \<in> (case quarantine_path r of None \<Rightarrow> {}
               | Some q \<Rightarrow> set (prefixes (QUAR cfg)) \<union> {q, q @ [name_of m]})" by blast
      then show ?thesis
      proof cases
        case 1
        from m1(3) [OF this] show ?thesis unfolding cr by blast
      next
        case 2 then show ?thesis unfolding cr by blast
      qed
    next
      case 2 then show ?thesis unfolding cr by blast
    qed
  qed
  show "a \<in> set (row_origins r) \<Longrightarrow> a \<notin> set (row_created cfg r) \<Longrightarrow> \<not> fs_exists (fs st') a" for a
  proof -
    assume a: "a \<in> set (row_origins r)" "a \<notin> set (row_created cfg r)"
    from a(2) have nt: "a \<noteq> target_path r" "a \<noteq> target_path r @ [name_of (src r)]"
      unfolding cr by auto
    from a(1) og consider "a = src r" | q where "quarantine_path r = Some q" "a = m"
      by (cases "quarantine_path r") auto
    then show ?thesis
    proof cases
      case 1
      with m3(3) nt f show ?thesis by simp
    next
      case (2 q)
      from a(2) 2 have "m \<noteq> q" "m \<noteq> q @ [name_of m]" unfolding cr by auto
      from m2(3) [OF 2(1) this] have "\<not> fs_exists (fs st2) m" .
      with m3(2) [of m] nt 2(2) f show ?thesis by auto
    qed
  qed
qed

lemma entry_effect_other:
  assumes ok: "apply_entry cfg r st = Inr st'"
    and act: "action r \<noteq> ''MOVE_SOURCE''" "action r \<noteq> ''REPLACE_MASTER_WITH_SOURCE'' \<or> master r = None"
  shows "dirs (fs st) \<subseteq> dirs (fs st')"
    "action r \<noteq> ''KEEP_MASTER'' \<Longrightarrow> set (prefixes (target_dir r)) \<subseteq> dirs (fs st')"
    "\<And>p. fs_exists (fs st') p \<Longrightarrow> fs_exists (fs st) p \<or> p \<in> set (row_created cfg r)"
    "set (row_origins r) = {}"
proof -
  show "set (row_origins r) = {}"
    using act by (auto simp: row_origins_def split: option.splits)
  show "dirs (fs st) \<subseteq> dirs (fs st')"
    "action r \<noteq> ''KEEP_MASTER'' \<Longrightarrow> set (prefixes (target_dir r)) \<subseteq> dirs (fs st')"
    "\<And>p. fs_exists (fs st') p \<Longrightarrow> fs_exists (fs st) p \<or> p \<in> set (row_created cfg r)"
  proof -
    consider (keep) "action r = ''KEEP_MASTER''" "fs st' = fs st"
      | (mk) "action r \<noteq> ''KEEP_MASTER''" "do_mkdir (target_dir r) st = Inr st'"
      using ok act by (auto simp: apply_entry_def and_then_Inr split: if_splits option.splits)
    note c = this
    show "dirs (fs st) \<subseteq> dirs (fs st')"
      using c by cases (auto dest: do_mkdir_effect(1))
    show "action r \<noteq> ''KEEP_MASTER'' \<Longrightarrow> set (prefixes (target_dir r)) \<subseteq> dirs (fs st')"
      using c by cases (auto dest: do_mkdir_effect(2))
    show "fs_exists (fs st') p \<Longrightarrow> fs_exists (fs st) p \<or> p \<in> set (row_created cfg r)" for p
      using c
    proof cases
      case keep then show "fs_exists (fs st') p \<Longrightarrow> ?thesis" by simp
    next
      case mk
      assume "fs_exists (fs st') p"
      from do_mkdir_effect(3) [OF mk(2) this] mk(1) show ?thesis
        by (auto simp: row_created_def)
    qed
  qed
qed

lemma entry_effect:
  assumes live: "\<not> DRY_RUN cfg" and ok: "apply_entry cfg r st = Inr st'"
  shows "dirs (fs st) \<subseteq> dirs (fs st')"
    "action r \<noteq> ''KEEP_MASTER'' \<Longrightarrow> set (prefixes (target_dir r)) \<subseteq> dirs (fs st')"
    "\<And>p. fs_exists (fs st') p \<Longrightarrow> fs_exists (fs st) p \<or> p \<in> set (row_created cfg r)"
    "\<And>a. a \<in> set (row_origins r) \<Longrightarrow> a \<notin> set (row_created cfg r) \<Longrightarrow> \<not> fs_exists (fs st') a"
proof -
  consider (mv) "action r = ''MOVE_SOURCE''"
    | (rp) m where "action r = ''REPLACE_MASTER_WITH_SOURCE''" "master r = Some m"
    | (ot) "action r \<noteq> ''MOVE_SOURCE''" "action r \<noteq> ''REPLACE_MASTER_WITH_SOURCE'' \<or> master r = None"
    by (cases "master r") auto
  note c = this
  show "dirs (fs st) \<subseteq> dirs (fs st')"
    using c
  proof cases
    case mv show ?thesis by (rule entry_effect_move(1) [OF live ok mv])
  next
    case (rp m) show ?thesis by (rule entry_effect_replace(1) [OF live ok rp])
  next
    case ot show ?thesis by (rule entry_effect_other(1) [OF ok ot])
  qed
  show "action r \<noteq> ''KEEP_MASTER'' \<Longrightarrow> set (prefixes (target_dir r)) \<subseteq> dirs (fs st')"
    using c
  proof cases
    case mv show ?thesis by (rule entry_effect_move(2) [OF live ok mv])
  next
    case (rp m) show ?thesis by (rule entry_effect_replace(2) [OF live ok rp])
  next
    case ot
    assume "action r \<noteq> ''KEEP_MASTER''"
    then show ?thesis by (rule entry_effect_other(2) [OF ok ot])
  qed
  show "fs_exists (fs st') p \<Longrightarrow> fs_exists (fs st) p \<or> p \<in> set (row_created cfg r)" for p
    using c
  proof cases
    case mv
    assume "fs_exists (fs st') p"
    then show ?thesis by (rule entry_effect_move(3) [OF live ok mv])
  next
    case (rp m)
    assume "fs_exists (fs st') p"
    then show ?thesis by (rule entry_effect_replace(3) [OF live ok rp])
  next
    case ot
    assume "fs_exists (fs st') p"
    then show ?thesis by (rule entry_effect_other(3) [OF ok ot])
  qed
  show "a \<in> set (row_origins r) \<Longrightarrow> a \<notin> set (row_created cfg r) \<Longrightarrow> \<not> fs_exists (fs st') a" for a
    using c
  proof cases
    case mv
    assume "a \<in> set (row_origins r)" "a \<notin> set (row_created cfg r)"
    then show ?thesis by (rule entry_effect_move(4) [OF live ok mv])
  next
    case (rp m)
    assume "a \<in> set (row_origins r)" "a \<notin> set (row_created cfg r)"
    then show ?thesis by (rule entry_effect_replace(4) [OF live ok rp])
  next
    case ot
    assume "a \<in> set (row_origins r)"
    with entry_effect_other(4) [OF ok ot] show ?thesis by simp
  qed
qed

lemma rows_effect:
  assumes live: "\<not> DRY_RUN cfg"
  shows "apply_rows cfg rows st = Inr st' \<Longrightarrow>
         \<forall>a \<in> set (plan_origins rows). a \<notin> set (plan_created cfg rows) \<Longrightarrow>
           dirs (fs st) \<subseteq> dirs (fs st')
         \<and> (\<forall>p. fs_exists (fs st') p \<longrightarrow> fs_exists (fs st) p \<or> p \<in> set (plan_created cfg rows))
         \<and> (\<forall>a \<in> set (plan_origins rows). \<not> fs_exists (fs st') a)
         \<and> (\<forall>r \<in> set rows. action r \<noteq> ''KEEP_MASTER'' \<longrightarrow>
                set (prefixes (target_dir r)) \<subseteq> dirs (fs st'))"
proof (induction rows arbitrary: st)
  case Nil
  then show ?case by (simp add: plan_origins_def plan_created_def)
next
  case (Cons r rs)
  from Cons.prems(1) obtain st1 where
    e: "apply_entry cfg r st = Inr st1" and rest: "apply_rows cfg rs st1 = Inr st'"
    by (auto simp: and_then_Inr)
  have og: "set (plan_origins (r # rs)) = set (row_origins r) \<union> set (plan_origins rs)"
    by (simp add: plan_origins_def)
  have cr: "set (plan_created cfg (r # rs)) = set (row_created cfg r) \<union> set (plan_created cfg rs)"
    by (simp add: plan_created_def)
  have disj: "\<forall>a \<in> set (plan_origins rs). a \<notin> set (plan_created cfg rs)"
    "\<forall>a \<in> set (row_origins r). a \<notin> set (row_created cfg r)"
    "\<forall>a \<in> set (row_origins r). a \<notin> set (plan_created cfg rs)"
    using Cons.prems(2) unfolding og cr by blast+
  note ee = entry_effect [OF live e]
  from Cons.IH [OF rest disj(1)] have ih:
    "dirs (fs st1) \<subseteq> dirs (fs st')"
    "\<forall>p. fs_exists (fs st') p \<longrightarrow> fs_exists (fs st1) p \<or> p \<in> set (plan_created cfg rs)"
    "\<forall>a \<in> set (plan_origins rs). \<not> fs_exists (fs st') a"
    "\<forall>r \<in> set rs. action r \<noteq> ''KEEP_MASTER'' \<longrightarrow> set (prefixes (target_dir r)) \<subseteq> dirs (fs st')"
    by blast+
  have 1: "dirs (fs st) \<subseteq> dirs (fs st')" using ee(1) ih(1) by blast
  have 2: "\<forall>p. fs_exists (fs st') p \<longrightarrow> fs_exists (fs st) p \<or> p \<in> set (plan_created cfg (r # rs))"
    unfolding cr using ee(3) ih(2) by blast
  have 3: "\<forall>a \<in> set (plan_origins (r # rs)). \<not> fs_exists (fs st') a"
  proof
    fix a assume "a \<in> set (plan_origins (r # rs))"
    then consider "a \<in> set (row_origins r)" | "a \<in> set (plan_origins rs)" unfolding og by blast
    then show "\<not> fs_exists (fs st') a"
    proof cases
      case 1
      with disj(2) have "\<not> fs_exists (fs st1) a" using ee(4) by blast
      moreover from 1 disj(3) have "a \<notin> set (plan_created cfg rs)" by blast
      ultimately show ?thesis using ih(2) by blast
    next
      case 2 with ih(3) show ?thesis by blast
    qed
  qed
  have 4: "\<forall>x \<in> set (r # rs). action x \<noteq> ''KEEP_MASTER'' \<longrightarrow>
                set (prefixes (target_dir x)) \<subseteq> dirs (fs st')"
  proof (intro ballI impI)
    fix x assume x: "x \<in> set (r # rs)" "action x \<noteq> ''KEEP_MASTER''"
    show "set (prefixes (target_dir x)) \<subseteq> dirs (fs st')"
    proof (cases "x = r")
      case True
      with ee(2) x(2) ih(1) show ?thesis by blast
    next
      case False
      with x ih(4) show ?thesis by simp
    qed
  qed
  from 1 2 3 4 show ?case by blast
qed

lemma mkdir_p_noop:
  assumes "set (prefixes d) \<subseteq> dirs f"
  shows "mkdir_p f d = Inr f"
proof -
  have "dirs f \<union> set (prefixes d) = dirs f" using assms by blast
  moreover have "\<not> (\<exists>q \<in> set (prefixes d). files f q \<noteq> None \<and> q \<notin> dirs f)" using assms by blast
  ultimately show ?thesis by (simp add: mkdir_p_def)
qed

lemma row_origins_cases:
  "action r = ''MOVE_SOURCE'' \<Longrightarrow> src r \<in> set (row_origins r)"
  "action r = ''REPLACE_MASTER_WITH_SOURCE'' \<Longrightarrow> master r = Some m \<Longrightarrow> src r \<in> set (row_origins r)"
  "action r = ''REPLACE_MASTER_WITH_SOURCE'' \<Longrightarrow> master r = Some m \<Longrightarrow> quarantine_path r = Some q
     \<Longrightarrow> m \<in> set (row_origins r)"
proof -
  show "action r = ''MOVE_SOURCE'' \<Longrightarrow> src r \<in> set (row_origins r)"
    by (simp add: row_origins_def)
  show "action r = ''REPLACE_MASTER_WITH_SOURCE'' \<Longrightarrow> master r = Some m \<Longrightarrow> src r \<in> set (row_origins r)"
    using row_origins_replace by blast
  show "action r = ''REPLACE_MASTER_WITH_SOURCE'' \<Longrightarrow> master r = Some m \<Longrightarrow> quarantine_path r = Some q
     \<Longrightarrow> m \<in> set (row_origins r)"
    using row_origins_replace [of r m] by simp
qed

lemma entry_noop:
  assumes dead: "\<forall>a \<in> set (row_origins r). \<not> fs_exists (fs st) a"
    and made: "action r \<noteq> ''KEEP_MASTER'' \<longrightarrow> set (prefixes (target_dir r)) \<subseteq> dirs (fs st)"
  shows "\<exists>st'. apply_entry cfg r st = Inr st' \<and> fs st' = fs st
           \<and> (trace st' = trace st \<or> trace st' = trace st @ [Mkdir (target_dir r)])"
proof (cases "action r = ''KEEP_MASTER''")
  case True
  then show ?thesis by (simp add: apply_entry_def)
next
  case nk: False
  with made have "mkdir_p (fs st) (target_dir r) = Inr (fs st)" by (simp add: mkdir_p_noop)
  then have mk: "do_mkdir (target_dir r) st = Inr (st\<lparr>trace := trace st @ [Mkdir (target_dir r)]\<rparr>)"
    by (simp add: do_mkdir_def)
  let ?st1 = "st\<lparr>trace := trace st @ [Mkdir (target_dir r)]\<rparr>"
  show ?thesis
  proof (cases "action r = ''MOVE_SOURCE''")
    case True
    with dead row_origins_cases(1) have "\<not> fs_exists (fs ?st1) (src r)" by simp
    then have "move_if_exists (src r) (target_path r) ?st1 = Inr ?st1"
      by (simp add: move_if_exists_def)
    with True nk mk show ?thesis
      by (simp add: apply_entry_def and_then_def)
  next
    case nm: False
    show ?thesis
    proof (cases "master r")
      case None
      with nm nk mk show ?thesis by (simp add: apply_entry_def and_then_def)
    next
      case (Some m)
      show ?thesis
      proof (cases "action r = ''REPLACE_MASTER_WITH_SOURCE''")
        case False
        with Some nm nk mk show ?thesis by (simp add: apply_entry_def and_then_def)
      next
        case True
        from dead row_origins_cases(2) [OF True Some] have "\<not> fs_exists (fs ?st1) (src r)" by simp
        then have mv: "move_if_exists (src r) (target_path r) ?st1 = Inr ?st1"
          by (simp add: move_if_exists_def)
        have qm: "quarantine_master cfg m (quarantine_path r) ?st1 = Inr ?st1"
        proof (cases "quarantine_path r")
          case None then show ?thesis by (simp add: quarantine_master_def)
        next
          case (Some q)
          from dead row_origins_cases(3) [OF True \<open>master r = Some m\<close> Some]
          have "\<not> fs_exists (fs ?st1) m" by simp
          with Some show ?thesis by (simp add: quarantine_master_def)
        qed
        from True Some nm nk mk mv qm show ?thesis
          by (simp add: apply_entry_def and_then_def)
      qed
    qed
  qed
qed

lemma rows_noop:
  "\<forall>a \<in> set (plan_origins rows). \<not> fs_exists (fs st) a \<Longrightarrow>
   \<forall>r \<in> set rows. action r \<noteq> ''KEEP_MASTER'' \<longrightarrow> set (prefixes (target_dir r)) \<subseteq> dirs (fs st) \<Longrightarrow>
   \<exists>st'. apply_rows cfg rows st = Inr st' \<and> fs st' = fs st \<and> (\<exists>ds. trace st' = trace st @ map Mkdir ds)"
proof (induction rows arbitrary: st)
  case Nil
  then show ?case by (auto intro: exI [of _ "[]"])
next
  case (Cons r rs)
  have og: "set (plan_origins (r # rs)) = set (row_origins r) \<union> set (plan_origins rs)"
    by (simp add: plan_origins_def)
  from Cons.prems og have "\<forall>a \<in> set (row_origins r). \<not> fs_exists (fs st) a"
    "action r \<noteq> ''KEEP_MASTER'' \<longrightarrow> set (prefixes (target_dir r)) \<subseteq> dirs (fs st)"
    by simp_all
  from entry_noop [OF this, of cfg] obtain st1 where
    e: "apply_entry cfg r st = Inr st1" "fs st1 = fs st"
       "trace st1 = trace st \<or> trace st1 = trace st @ [Mkdir (target_dir r)]" by blast
  from e(3) obtain d1 where d1: "trace st1 = trace st @ map Mkdir d1"
    by (metis append_Nil2 list.simps(8) list.simps(9))
  from Cons.prems og e(2) have
    "\<forall>a \<in> set (plan_origins rs). \<not> fs_exists (fs st1) a"
    "\<forall>r \<in> set rs. action r \<noteq> ''KEEP_MASTER'' \<longrightarrow> set (prefixes (target_dir r)) \<subseteq> dirs (fs st1)"
    by simp_all
  from Cons.IH [OF this] obtain st' ds where
    r: "apply_rows cfg rs st1 = Inr st'" "fs st' = fs st1" "trace st' = trace st1 @ map Mkdir ds"
    by blast
  have "trace st' = trace st @ map Mkdir (d1 @ ds)" using r(3) d1 by simp
  then have "\<exists>xs. trace st' = trace st @ map Mkdir xs" by blast
  with e(1,2) r(1,2) show ?case by (simp add: and_then_def)
qed

text \<open>
  C5, amended. When no path that the plan moves a file away from is a path at which the
  plan can make something exist, and a live run of the plan has reached its summary
  line, a second live run of the same plan on the resulting file system reaches the same
  summary line, makes no call but \<^verbatim>\<open>mkdir\<close>, and leaves the file system as it found it.
\<close>

theorem second_apply_moves_nothing:
  assumes live: "\<not> DRY_RUN cfg"
    and disj: "\<forall>a \<in> set (plan_origins rows). a \<notin> set (plan_created cfg rows)"
    and first: "fst (do_apply cfg f (Some rows)) = Done msg"
  shows "fst (do_apply cfg (fs (snd (do_apply cfg f (Some rows)))) (Some rows)) = Done msg
       \<and> fs (snd (do_apply cfg (fs (snd (do_apply cfg f (Some rows)))) (Some rows)))
           = fs (snd (do_apply cfg f (Some rows)))
       \<and> (\<exists>ds. trace (snd (do_apply cfg (fs (snd (do_apply cfg f (Some rows)))) (Some rows)))
                 = map Mkdir ds)"
proof -
  from first obtain st1 where st1: "apply_rows cfg rows (start_state f) = Inr st1" "msg = summary st1"
    by (auto simp: do_apply_Done)
  have s1: "snd (do_apply cfg f (Some rows)) = st1" using do_apply_Inr [OF st1(1)] by simp
  from rows_effect [OF live st1(1) disj] have
    dead: "\<forall>a \<in> set (plan_origins rows). \<not> fs_exists (fs (start_state (fs st1))) a"
    and made: "\<forall>r \<in> set rows. action r \<noteq> ''KEEP_MASTER'' \<longrightarrow>
                 set (prefixes (target_dir r)) \<subseteq> dirs (fs (start_state (fs st1)))"
    by (simp_all add: start_state_def)
  from rows_noop [OF dead made, of cfg] obtain st2 ds where
    st2: "apply_rows cfg rows (start_state (fs st1)) = Inr st2" "fs st2 = fs st1"
         "trace st2 = map Mkdir ds"
    by (auto simp: start_state_def)
  from apply_rows_tally [OF st1(1)] apply_rows_tally [OF st2(1)]
  have "summary st2 = summary st1" by (simp add: summary_def start_state_def)
  with do_apply_Inr [OF st2(1)] st2(2,3) st1(2) show ?thesis
    unfolding s1 by auto
qed

text \<open>
  C5, as stated, fails. In the plan of the first example the replace row targets the
  path of the master it displaces. The first live run moves the master to quarantine and
  the source copy to that path; the second run of the same plan finds a file at the
  master's path again, moves it to the quarantine path, and leaves the archive without
  the picture.
\<close>

theorem second_apply_moves_master_again:
  "\<not> DRY_RUN ex_live \<and>
   fst (do_apply ex_live ex_fs (Some ex_plan)) = Done ''APPLY done. moved=1, replaced=1, kept=0'' \<and>
   files (fs (snd (do_apply ex_live ex_fs (Some ex_plan)))) ex_master = Some ''A'' \<and>
   fst (do_apply ex_live (fs (snd (do_apply ex_live ex_fs (Some ex_plan)))) (Some ex_plan))
     = Done ''APPLY done. moved=1, replaced=1, kept=0'' \<and>
   trace (snd (do_apply ex_live (fs (snd (do_apply ex_live ex_fs (Some ex_plan)))) (Some ex_plan)))
     = [Mkdir [''data'', ''MobileBackup'', ''2020'', ''01''], Mkdir [''quarantine''],
        Move ex_master [''quarantine'', ''vacation.jpg''],
        Mkdir [''data'', ''MobileBackup'', ''2020'', ''01'']] \<and>
   files (fs (snd (do_apply ex_live (fs (snd (do_apply ex_live ex_fs (Some ex_plan)))) (Some ex_plan))))
     ex_master = None"
  by code_simp

theorem second_apply_moves_nothing_witness:
  "\<not> DRY_RUN ex_live \<and>
   map action h_plan = [''REPLACE_MASTER_WITH_SOURCE''] \<and>
   fst (do_apply ex_live h_fs (Some h_plan)) = Done ''APPLY done. moved=0, replaced=1, kept=0'' \<and>
   trace (snd (do_apply ex_live h_fs (Some h_plan)))
     = [Mkdir [''data'', ''MobileBackup'', ''2019'', ''07''], Mkdir [''quarantine''],
        Move ex_dunes [''quarantine'', ''dunes.jpg''],
        Move ex_img [''data'', ''MobileBackup'', ''2019'', ''07'', ''IMG_001.heic'']] \<and>
   fst (do_apply ex_live (fs (snd (do_apply ex_live h_fs (Some h_plan)))) (Some h_plan))
     = Done ''APPLY done. moved=0, replaced=1, kept=0'' \<and>
   fs (snd (do_apply ex_live (fs (snd (do_apply ex_live h_fs (Some h_plan)))) (Some h_plan)))
     = fs (snd (do_apply ex_live h_fs (Some h_plan))) \<and>
   trace (snd (do_apply ex_live (fs (snd (do_apply ex_live h_fs (Some h_plan)))) (Some h_plan)))
     = [Mkdir [''data'', ''MobileBackup'', ''2019'', ''07'']]"
proof -
  have h1: "\<not> DRY_RUN ex_live" by code_simp
  have h2: "\<forall>a \<in> set (plan_origins h_plan). a \<notin> set (plan_created ex_live h_plan)"
    by code_simp
  have h3: "fst (do_apply ex_live h_fs (Some h_plan)) = Done ''APPLY done. moved=0, replaced=1, kept=0''"
    by code_simp
  have ev: "map action h_plan = [''REPLACE_MASTER_WITH_SOURCE'']"
    "trace (snd (do_apply ex_live h_fs (Some h_plan)))
     = [Mkdir [''data'', ''MobileBackup'', ''2019'', ''07''], Mkdir [''quarantine''],
        Move ex_dunes [''quarantine'', ''dunes.jpg''],
        Move ex_img [''data'', ''MobileBackup'', ''2019'', ''07'', ''IMG_001.heic'']]"
    "trace (snd (do_apply ex_live (fs (snd (do_apply ex_live h_fs (Some h_plan)))) (Some h_plan)))
     = [Mkdir [''data'', ''MobileBackup'', ''2019'', ''07'']]"
    by code_simp+
  show ?thesis
    using second_apply_moves_nothing [OF h1 h2 h3] h1 h3 ev by simp
qed

end
